theory Spec2Isabelle
  imports Complex_Main "HOL-Library.Multiset" "HOL-Library.AList" "HOL-Library.Log_Nat"
begin

section \<open>The JavaScript values the dashboard computes with\<close>

text \<open>
  The deal records come out of the CSV parser as objects whose cells are numbers, strings,
  booleans, \<open>null\<close> (an empty cell) or are absent (\<open>undefined\<close>). The engine relies on
  JavaScript's implicit conversions throughout, so the conversions are part of the model.

  Numbers are IEEE doubles in the source. A finite double is the rational it denotes, and
  \<open>NaN\<close> and the two infinities are separate values. Every operation that can leave the
  doubles (addition, multiplication, division, the reading of a numeric literal) rounds its
  exact result to the nearest double, ties to even, as the hardware does. The sign of zero
  is not modelled. Strings are sequences of ASCII characters.
\<close>

datatype jsnum = NaN | NegInf | Fin rat | PosInf

datatype jsval = JUndefined | JNull | JBool bool | JNum jsnum | JStr string

text \<open>
  What the host supplies and the language leaves open: the digits \<open>Number::toString\<close>
  prints for a number that is not a safe integer (shortest round-trip digits of the double),
  the local time zone adjustment, \<open>Date.parse\<close> outside the date-only ISO form, and the
  text of the members every object inherits from \<open>Object.prototype\<close>.
\<close>

record host =
  numberText :: "rat \<Rightarrow> string"
  localTZA :: "int \<Rightarrow> int"
  dateParseOther :: "string \<Rightarrow> jsnum"
  protoMemberText :: "string \<Rightarrow> string"

subsection \<open>Rounding to a double\<close>

text \<open>
  The binary exponent of a positive rational \<open>a\<close>: the \<open>e\<close> with \<open>2 powi e \<le> a < 2 powi (e + 1)\<close>,
  found from the bit lengths of numerator and denominator.
\<close>

definition floorLog2 :: "rat \<Rightarrow> int" where
  "floorLog2 a =
     (let (n, d) = quotient_of a;
          e = bitlen n - bitlen d
      in if 2 powi e \<le> a then e else e - 1)"

definition roundHalfEven :: "rat \<Rightarrow> int" where
  "roundHalfEven x =
     (let f = \<lfloor>x\<rfloor>; r = x - of_int f
      in if r < 1 / 2 then f else if 1 / 2 < r then f + 1 else if even f then f else f + 1)"

text \<open>
  The double nearest to a rational: 53 significant bits, exponents from \<open>-1022\<close> (below it
  the doubles keep the spacing \<open>2 powi (- 1074)\<close>) to 1023, and infinity once the rounded
  value reaches \<open>2 powi 1024\<close>.
\<close>

definition toDouble :: "rat \<Rightarrow> jsnum" where
  "toDouble q =
     (if q = 0 then Fin 0
      else
        (let a = \<bar>q\<bar>;
             e = max (floorLog2 a) (- 1022);
             ulp = 2 powi (e - 52);
             r = of_int (roundHalfEven (a / ulp)) * ulp
         in if 2 powi 1024 \<le> r then (if q < 0 then NegInf else PosInf)
            else Fin (if q < 0 then - r else r)))"

subsection \<open>Arithmetic and comparison of numbers\<close>

fun js_lt :: "jsnum \<Rightarrow> jsnum \<Rightarrow> bool" where
  "js_lt NaN _ = False"
| "js_lt _ NaN = False"
| "js_lt (Fin a) (Fin b) = (a < b)"
| "js_lt NegInf NegInf = False"
| "js_lt NegInf _ = True"
| "js_lt _ NegInf = False"
| "js_lt PosInf _ = False"
| "js_lt _ PosInf = True"

fun js_neg :: "jsnum \<Rightarrow> jsnum" where
  "js_neg NaN = NaN"
| "js_neg NegInf = PosInf"
| "js_neg PosInf = NegInf"
| "js_neg (Fin a) = Fin (- a)"

fun js_add :: "jsnum \<Rightarrow> jsnum \<Rightarrow> jsnum" where
  "js_add NaN _ = NaN"
| "js_add _ NaN = NaN"
| "js_add (Fin a) (Fin b) = toDouble (a + b)"
| "js_add PosInf NegInf = NaN"
| "js_add NegInf PosInf = NaN"
| "js_add PosInf _ = PosInf"
| "js_add NegInf _ = NegInf"
| "js_add _ PosInf = PosInf"
| "js_add _ NegInf = NegInf"

definition js_sub :: "jsnum \<Rightarrow> jsnum \<Rightarrow> jsnum" where
  "js_sub a b = js_add a (js_neg b)"

text \<open>The sign of a number that is not \<open>NaN\<close>; zero counts as positive zero.\<close>

fun js_sign :: "jsnum \<Rightarrow> int" where
  "js_sign NaN = 0"
| "js_sign NegInf = - 1"
| "js_sign PosInf = 1"
| "js_sign (Fin a) = (if a < 0 then - 1 else if a = 0 then 0 else 1)"

definition signedInf :: "int \<Rightarrow> jsnum" where
  "signedInf s = (if s = 0 then NaN else if 0 < s then PosInf else NegInf)"

fun js_mul :: "jsnum \<Rightarrow> jsnum \<Rightarrow> jsnum" where
  "js_mul NaN _ = NaN"
| "js_mul _ NaN = NaN"
| "js_mul (Fin a) (Fin b) = toDouble (a * b)"
| "js_mul x y = signedInf (js_sign x * js_sign y)"

fun js_div :: "jsnum \<Rightarrow> jsnum \<Rightarrow> jsnum" where
  "js_div NaN _ = NaN"
| "js_div _ NaN = NaN"
| "js_div (Fin a) (Fin b) = (if b = 0 then signedInf (js_sign (Fin a)) else toDouble (a / b))"
| "js_div (Fin a) _ = Fin 0"
| "js_div x (Fin b) = signedInf (js_sign x * (if b < 0 then - 1 else 1))"
| "js_div _ _ = NaN"

subsection \<open>Strings\<close>

definition isDigit :: "char \<Rightarrow> bool" where
  "isDigit c = (c \<in> set ''0123456789'')"

definition digitVal :: "char \<Rightarrow> nat" where
  "digitVal c = (of_char c :: nat) - 48"

definition digitsVal :: "string \<Rightarrow> nat" where
  "digitsVal ds = foldl (\<lambda>a c. 10 * a + digitVal c) 0 ds"

text \<open>Case mapping touches the ASCII letters only.\<close>

definition lowerChar :: "char \<Rightarrow> char" where
  "lowerChar c =
     (case map_of (zip ''ABCDEFGHIJKLMNOPQRSTUVWXYZ'' ''abcdefghijklmnopqrstuvwxyz'') c of
        None \<Rightarrow> c
      | Some l \<Rightarrow> l)"

definition upperChar :: "char \<Rightarrow> char" where
  "upperChar c =
     (case map_of (zip ''abcdefghijklmnopqrstuvwxyz'' ''ABCDEFGHIJKLMNOPQRSTUVWXYZ'') c of
        None \<Rightarrow> c
      | Some u \<Rightarrow> u)"

definition toLowerCase :: "string \<Rightarrow> string" where
  "toLowerCase s = map lowerChar s"

definition toUpperCase :: "string \<Rightarrow> string" where
  "toUpperCase s = map upperChar s"

text \<open>\<open>String.prototype.includes\<close>: the argument occurs as a contiguous substring.\<close>

fun startsWith :: "string \<Rightarrow> string \<Rightarrow> bool" where
  "startsWith _ [] = True"
| "startsWith [] (p # ps) = False"
| "startsWith (c # cs) (p # ps) = (c = p \<and> startsWith cs ps)"

fun includesStr :: "string \<Rightarrow> string \<Rightarrow> bool" where
  "includesStr [] p = (p = [])"
| "includesStr (c # cs) p = (startsWith (c # cs) p \<or> includesStr cs p)"

text \<open>\<open>s.split('/')\<close>: the pieces between the slashes; the empty string gives one empty piece.\<close>

fun splitSlash :: "string \<Rightarrow> string list" where
  "splitSlash [] = [[]]"
| "splitSlash (c # cs) =
     (if c = CHR ''/'' then [] # splitSlash cs
      else (case splitSlash cs of p # ps \<Rightarrow> (c # p) # ps | [] \<Rightarrow> [[c]]))"

text \<open>The comparison of two strings by \<open><\<close>: lexicographic on the code units.\<close>

fun str_less :: "string \<Rightarrow> string \<Rightarrow> bool" where
  "str_less [] [] = False"
| "str_less [] (y # ys) = True"
| "str_less (x # xs) [] = False"
| "str_less (x # xs) (y # ys) =
     ((of_char x :: nat) < of_char y \<or> (x = y \<and> str_less xs ys))"

definition isWhite :: "char \<Rightarrow> bool" where
  "isWhite c = ((of_char c :: nat) \<in> {9, 10, 11, 12, 13, 32})"

definition trimStart :: "string \<Rightarrow> string" where
  "trimStart s = dropWhile isWhite s"

definition trim :: "string \<Rightarrow> string" where
  "trim s = rev (dropWhile isWhite (rev (dropWhile isWhite s)))"

subsection \<open>Numeric literals\<close>

definition pow10 :: "int \<Rightarrow> rat" where
  "pow10 e = (if 0 \<le> e then 10 ^ nat e else 1 / 10 ^ nat (- e))"

text \<open>
  The longest prefix that is an unsigned decimal literal (digits, an optional fraction, an
  optional exponent that is only taken when it has digits), with its value and the rest.
\<close>

definition exponentPart :: "string \<Rightarrow> (int \<times> string) option" where
  "exponentPart s =
     (case s of
        [] \<Rightarrow> None
      | c # r \<Rightarrow>
          if c = CHR ''e'' \<or> c = CHR ''E'' then
            (let (neg, r1) =
                   (case r of
                      [] \<Rightarrow> (False, r)
                    | d # r' \<Rightarrow>
                        if d = CHR ''-'' then (True, r')
                        else if d = CHR ''+'' then (False, r') else (False, r));
                 ds = takeWhile isDigit r1
             in if ds = [] then None
                else Some ((if neg then - int (digitsVal ds) else int (digitsVal ds)),
                           dropWhile isDigit r1))
          else None)"

definition unsignedDecimal :: "string \<Rightarrow> (rat \<times> string) option" where
  "unsignedDecimal s =
     (let ip = takeWhile isDigit s;
          r1 = dropWhile isDigit s;
          dot = (r1 \<noteq> [] \<and> hd r1 = CHR ''.'');
          fp = (if dot then takeWhile isDigit (tl r1) else []);
          r2 = (if dot then dropWhile isDigit (tl r1) else r1)
      in if ip = [] \<and> fp = [] then None
         else
           (let m = of_nat (digitsVal ip) + of_nat (digitsVal fp) / 10 ^ length fp
            in case exponentPart r2 of
                 Some (e, r3) \<Rightarrow> Some (m * pow10 e, r3)
               | None \<Rightarrow> Some (m, r2)))"

definition splitSign :: "string \<Rightarrow> bool \<times> string" where
  "splitSign s =
     (case s of
        [] \<Rightarrow> (False, s)
      | c # r \<Rightarrow>
          if c = CHR ''-'' then (True, r)
          else if c = CHR ''+'' then (False, r) else (False, s))"

text \<open>\<open>parseFloat\<close>: leading white space, a sign, then \<open>Infinity\<close> or the longest decimal prefix.\<close>

definition parseFloat :: "string \<Rightarrow> jsnum" where
  "parseFloat s =
     (let (neg, r) = splitSign (trimStart s)
      in if startsWith r ''Infinity'' then (if neg then NegInf else PosInf)
         else (case unsignedDecimal r of
                 None \<Rightarrow> NaN
               | Some (v, _) \<Rightarrow> toDouble (if neg then - v else v)))"

definition hexVal :: "char \<Rightarrow> nat option" where
  "hexVal c =
     (let n = (of_char c :: nat)
      in if 48 \<le> n \<and> n \<le> 57 then Some (n - 48)
         else if 97 \<le> n \<and> n \<le> 102 then Some (n - 87)
         else if 65 \<le> n \<and> n \<le> 70 then Some (n - 55)
         else None)"

definition radixDigit :: "nat \<Rightarrow> char \<Rightarrow> bool" where
  "radixDigit r c = (case hexVal c of None \<Rightarrow> False | Some v \<Rightarrow> v < r)"

definition radixVal :: "nat \<Rightarrow> string \<Rightarrow> nat" where
  "radixVal r ds = foldl (\<lambda>a c. r * a + the (hexVal c)) 0 ds"

text \<open>
  \<open>parseInt\<close> with no radix argument: leading white space, a sign, radix 16 after a
  \<open>0x\<close> prefix and 10 otherwise, then the longest run of digits of that radix.
\<close>

definition parseInt :: "string \<Rightarrow> jsnum" where
  "parseInt s =
     (let (neg, r) = splitSign (trimStart s);
          hex = (startsWith r ''0x'' \<or> startsWith r ''0X'');
          radix = (if hex then 16 else 10);
          body = (if hex then drop 2 r else r);
          ds = takeWhile (radixDigit radix) body
      in if ds = [] then NaN
         else toDouble (of_nat (radixVal radix ds) * (if neg then - 1 else 1)))"

text \<open>
  The conversion of a whole string to a number: white space is trimmed on both sides, the
  empty string is 0, and the rest has to be one numeric literal, else the result is \<open>NaN\<close>.
\<close>

definition radixLiteral :: "nat \<Rightarrow> string \<Rightarrow> jsnum" where
  "radixLiteral r ds =
     (if ds \<noteq> [] \<and> list_all (radixDigit r) ds then toDouble (of_nat (radixVal r ds))
      else NaN)"

definition stringToNumber :: "string \<Rightarrow> jsnum" where
  "stringToNumber s =
     (let t = trim s
      in if t = [] then Fin 0
         else if startsWith t ''0x'' \<or> startsWith t ''0X'' then radixLiteral 16 (drop 2 t)
         else if startsWith t ''0o'' \<or> startsWith t ''0O'' then radixLiteral 8 (drop 2 t)
         else if startsWith t ''0b'' \<or> startsWith t ''0B'' then radixLiteral 2 (drop 2 t)
         else
           (let (neg, r) = splitSign t
            in if r = ''Infinity'' then (if neg then NegInf else PosInf)
               else (case unsignedDecimal r of
                       Some (v, []) \<Rightarrow> toDouble (if neg then - v else v)
                     | _ \<Rightarrow> NaN)))"

text \<open>\<open>Number::toString\<close>: safe integers print their decimal digits, the rest is the host's.\<close>

fun natText :: "nat \<Rightarrow> string" where
  "natText n =
     (if n < 10 then [''0123456789'' ! n]
      else natText (n div 10) @ [''0123456789'' ! (n mod 10)])"

definition intText :: "int \<Rightarrow> string" where
  "intText i = (if i < 0 then CHR ''-'' # natText (nat (- i)) else natText (nat i))"

definition isSafeInteger :: "rat \<Rightarrow> bool" where
  "isSafeInteger q = (q = of_int \<lfloor>q\<rfloor> \<and> \<bar>q\<bar> \<le> 9007199254740991)"

definition numberToString :: "host \<Rightarrow> jsnum \<Rightarrow> string" where
  "numberToString h n =
     (case n of
        NaN \<Rightarrow> ''NaN''
      | PosInf \<Rightarrow> ''Infinity''
      | NegInf \<Rightarrow> ''-Infinity''
      | Fin q \<Rightarrow> if isSafeInteger q then intText \<lfloor>q\<rfloor> else numberText h q)"

subsection \<open>Conversions and operators on values\<close>

definition toNumber :: "jsval \<Rightarrow> jsnum" where
  "toNumber v =
     (case v of
        JUndefined \<Rightarrow> NaN
      | JNull \<Rightarrow> Fin 0
      | JBool b \<Rightarrow> Fin (if b then 1 else 0)
      | JNum n \<Rightarrow> n
      | JStr s \<Rightarrow> stringToNumber s)"

definition toStr :: "host \<Rightarrow> jsval \<Rightarrow> string" where
  "toStr h v =
     (case v of
        JUndefined \<Rightarrow> ''undefined''
      | JNull \<Rightarrow> ''null''
      | JBool b \<Rightarrow> (if b then ''true'' else ''false'')
      | JNum n \<Rightarrow> numberToString h n
      | JStr s \<Rightarrow> s)"

definition truthy :: "jsval \<Rightarrow> bool" where
  "truthy v =
     (case v of
        JUndefined \<Rightarrow> False
      | JNull \<Rightarrow> False
      | JBool b \<Rightarrow> b
      | JNum n \<Rightarrow> n \<noteq> NaN \<and> n \<noteq> Fin 0
      | JStr s \<Rightarrow> s \<noteq> [])"

text \<open>\<open>a || b\<close> on values.\<close>

definition js_or :: "jsval \<Rightarrow> jsval \<Rightarrow> jsval" where
  "js_or a b = (if truthy a then a else b)"

text \<open>\<open>a < b\<close>: two strings compare as strings, anything else as numbers; \<open>NaN\<close> gives false.\<close>

definition js_less :: "jsval \<Rightarrow> jsval \<Rightarrow> bool" where
  "js_less a b =
     (case (a, b) of
        (JStr s, JStr t) \<Rightarrow> str_less s t
      | _ \<Rightarrow> js_lt (toNumber a) (toNumber b))"

text \<open>\<open>a === b\<close>: same type and same value, and \<open>NaN\<close> equals nothing.\<close>

definition strictEq :: "jsval \<Rightarrow> jsval \<Rightarrow> bool" where
  "strictEq a b = (a = b \<and> a \<noteq> JNum NaN)"

text \<open>\<open>a + b\<close>: concatenation as soon as one side is a string, numeric addition otherwise.\<close>

definition isString :: "jsval \<Rightarrow> bool" where
  "isString v = (case v of JStr _ \<Rightarrow> True | _ \<Rightarrow> False)"

definition js_plus :: "host \<Rightarrow> jsval \<Rightarrow> jsval \<Rightarrow> jsval" where
  "js_plus h a b =
     (if isString a \<or> isString b then JStr (toStr h a @ toStr h b)
      else JNum (js_add (toNumber a) (toNumber b)))"

subsection \<open>Records\<close>

text \<open>
  A deal is one parsed CSV row: field names bound to values. Reading a name that is not
  bound gives \<open>undefined\<close>.
\<close>

type_synonym deal = "(string \<times> jsval) list"

definition field :: "deal \<Rightarrow> string \<Rightarrow> jsval" where
  "field d k = (case map_of d k of None \<Rightarrow> JUndefined | Some v \<Rightarrow> v)"

section \<open>Dates\<close>

text \<open>
  A \<open>Date\<close> is its time value: milliseconds since the epoch in UTC, or \<open>NaN\<close> for an invalid
  date. \<open>new Date(year, month, date)\<close> reads its arguments as local time and lets a month or
  a day outside the calendar carry over into the next month or year.
\<close>

definition msPerDay :: int where
  "msPerDay = 86400000"

definition maxTime :: int where
  "maxTime = 8640000000000000"

definition dayFromYear :: "int \<Rightarrow> int" where
  "dayFromYear y =
     365 * (y - 1970) + (y - 1969) div 4 - (y - 1901) div 100 + (y - 1601) div 400"

definition inLeapYear :: "int \<Rightarrow> bool" where
  "inLeapYear y = (y mod 4 = 0 \<and> (y mod 100 \<noteq> 0 \<or> y mod 400 = 0))"

definition daysBeforeMonth :: "bool \<Rightarrow> nat \<Rightarrow> int" where
  "daysBeforeMonth leap mn =
     [0, 31, 59, 90, 120, 151, 181, 212, 243, 273, 304, 334] ! mn
       + (if leap \<and> 2 \<le> mn then 1 else 0)"

definition daysInMonth :: "bool \<Rightarrow> nat \<Rightarrow> nat" where
  "daysInMonth leap mn =
     (if mn = 1 then (if leap then 29 else 28)
      else [31, 28, 31, 30, 31, 30, 31, 31, 30, 31, 30, 31] ! mn)"

text \<open>
  \<open>MakeDay\<close>: the month is reduced modulo 12 into the year, the day number of the first of
  that month is found, and the day of the month is added unchecked. The first of the month
  may itself lie outside the range of time values; only the finished date is clipped. The
  engine gives no day to a year beyond a million or a month beyond ten million.
\<close>

definition makeDay :: "int \<Rightarrow> int \<Rightarrow> int \<Rightarrow> int option" where
  "makeDay year month date =
     (if \<bar>year\<bar> \<le> 1000000 \<and> \<bar>month\<bar> \<le> 10000000 then
        (let ym = year + month div 12;
             mn = nat (month mod 12)
         in Some (dayFromYear ym + daysBeforeMonth (inLeapYear ym) mn + date - 1))
      else None)"

text \<open>A year from 0 to 99 given to the \<open>Date\<close> constructor means a year of the 1900s.\<close>

definition makeFullYear :: "int \<Rightarrow> int" where
  "makeFullYear y = (if 0 \<le> y \<and> y \<le> 99 then 1900 + y else y)"

definition truncInt :: "rat \<Rightarrow> int" where
  "truncInt q = (if q < 0 then - \<lfloor>- q\<rfloor> else \<lfloor>q\<rfloor>)"

definition finiteInt :: "jsnum \<Rightarrow> int option" where
  "finiteInt n = (case n of Fin q \<Rightarrow> Some (truncInt q) | _ \<Rightarrow> None)"

definition newDate :: "host \<Rightarrow> jsnum \<Rightarrow> jsnum \<Rightarrow> jsnum \<Rightarrow> jsnum" where
  "newDate h year month date =
     (case (finiteInt year, finiteInt month, finiteInt date) of
        (Some y, Some m, Some dt) \<Rightarrow>
          (case makeDay (makeFullYear y) m dt of
             None \<Rightarrow> NaN
           | Some day \<Rightarrow>
               (let t = day * msPerDay;
                    u = t - localTZA h t
                in if \<bar>u\<bar> > maxTime then NaN else Fin (of_int u)))
      | _ \<Rightarrow> NaN)"

text \<open>
  \<open>new Date(string)\<close>: a calendar date written \<open>YYYY-MM-DD\<close> is midnight UTC of that day;
  what any other string gives is the host's.
\<close>

definition isoDateOnly :: "string \<Rightarrow> int option" where
  "isoDateOnly s =
     (if length s = 10 \<and> s ! 4 = CHR ''-'' \<and> s ! 7 = CHR ''-''
         \<and> list_all isDigit (take 4 s) \<and> list_all isDigit (take 2 (drop 5 s))
         \<and> list_all isDigit (drop 8 s)
      then
        (let y = int (digitsVal (take 4 s));
             m = digitsVal (take 2 (drop 5 s));
             d = digitsVal (drop 8 s)
         in if 1 \<le> m \<and> m \<le> 12 \<and> 1 \<le> d \<and> d \<le> daysInMonth (inLeapYear y) (m - 1)
            then Some ((dayFromYear y + daysBeforeMonth (inLeapYear y) (m - 1) + int d - 1)
                         * msPerDay)
            else None)
      else None)"

definition parseDate :: "host \<Rightarrow> string \<Rightarrow> jsnum" where
  "parseDate h s = (case isoDateOnly s of Some t \<Rightarrow> Fin (of_int t) | None \<Rightarrow> dateParseOther h s)"

text \<open>The date a slash-delimited \<open>M/D/YYYY\<close> cell denotes, as both the filter and the sort build it.\<close>

definition slashDate :: "host \<Rightarrow> string list \<Rightarrow> jsnum" where
  "slashDate h parts =
     newDate h (parseInt (parts ! 2)) (js_sub (parseInt (parts ! 0)) (Fin 1))
       (parseInt (parts ! 1))"

section \<open>The filter evaluator\<close>

text \<open>
  The filter state of the full dashboard. A range or a list that is \<open>null\<close> is \<open>None\<close>; the
  two flag filters are \<open>true\<close>, \<open>false\<close> or \<open>null\<close>; the date range holds the two strings of
  the date inputs. The lists hold the values the user ticked, which are the cells of the
  uploaded file as the CSV parser typed them: strings, and numbers or booleans where a cell
  reads as one.
\<close>

datatype error = TypeError

record filters =
  revenueRange :: "(jsnum \<times> jsnum) option"
  ebitdaRange :: "(jsnum \<times> jsnum) option"
  pursuitsRange :: "(jsnum \<times> jsnum) option"
  verticals :: "jsval list option"
  activities :: "jsval list option"
  regions :: "jsval list option"
  states :: "jsval list option"
  dateRange :: "(string \<times> string) option"
  includeBrokers :: bool
  includeSmartshareEnabled :: "bool option"
  includeInboundInquiryEnabled :: "bool option"
  dealIntentStatuses :: "jsval list option"
  dealIntentTypes :: "jsval list option"

text \<open>
  Each predicate below is one \<open>if (...) return false\<close> of the callback of \<open>filteredDeals\<close>,
  true when the record is excluded.
\<close>

definition rangeExcluded :: "(jsnum \<times> jsnum) option \<Rightarrow> jsval \<Rightarrow> bool" where
  "rangeExcluded r v =
     (case r of
        None \<Rightarrow> False
      | Some (lo, hi) \<Rightarrow> js_less v (JNum lo) \<or> js_less (JNum hi) v)"

definition setExcluded :: "jsval list option \<Rightarrow> jsval \<Rightarrow> bool" where
  "setExcluded allowed v =
     (case allowed of
        None \<Rightarrow> False
      | Some vs \<Rightarrow> 0 < length vs \<and> v \<notin> set vs)"

definition brokerExcluded :: "host \<Rightarrow> filters \<Rightarrow> deal \<Rightarrow> bool" where
  "brokerExcluded h f d =
     (includeBrokers f = False
      \<and> truthy (field d ''Account Owner'')
      \<and> toLowerCase (toStr h (field d ''Account Owner'')) = ''broker'')"

definition flagEnabled :: "jsval \<Rightarrow> bool" where
  "flagEnabled v =
     (strictEq v (JNum (Fin 1))
      \<or> strictEq v (JStr ''1'')
      \<or> strictEq v (JBool True)
      \<or> (case v of JStr s \<Rightarrow> toUpperCase s = ''TRUE'' | _ \<Rightarrow> False))"

definition flagsExcluded :: "filters \<Rightarrow> deal \<Rightarrow> bool" where
  "flagsExcluded f d =
     (let smartshareEnabled = flagEnabled (field d ''SmartShare Enabled?'');
          inboundEnabled = flagEnabled (field d ''Inbound Inquiry Enabled?'')
      in if includeSmartshareEnabled f = Some True
            \<and> includeInboundInquiryEnabled f = Some True
         then \<not> smartshareEnabled \<and> \<not> inboundEnabled
         else if includeSmartshareEnabled f \<noteq> None
                 \<and> Some smartshareEnabled \<noteq> includeSmartshareEnabled f
         then True
         else includeInboundInquiryEnabled f \<noteq> None
                \<and> Some inboundEnabled \<noteq> includeInboundInquiryEnabled f)"

definition statusField :: "deal \<Rightarrow> jsval" where
  "statusField d =
     js_or (js_or (field d ''Deal Intent Status'') (field d ''Deal Intent'')) (JStr [])"

text \<open>
  \<open>list.some(s => p(s.toLowerCase()))\<close>: the entries are tried from the left and the first
  hit ends the search. Only a string has \<open>toLowerCase\<close>; on any other entry the call throws
  a \<open>TypeError\<close>, which nothing in the filter callback catches.
\<close>

fun someLowerCase :: "(string \<Rightarrow> bool) \<Rightarrow> jsval list \<Rightarrow> error + bool" where
  "someLowerCase p [] = Inr False"
| "someLowerCase p (s # ss) =
     (case s of
        JStr str \<Rightarrow> if p (toLowerCase str) then Inr True else someLowerCase p ss
      | _ \<Rightarrow> Inl TypeError)"

definition statusExcluded :: "host \<Rightarrow> filters \<Rightarrow> deal \<Rightarrow> error + bool" where
  "statusExcluded h f d =
     (case dealIntentStatuses f of
        None \<Rightarrow> Inr False
      | Some ss \<Rightarrow>
          if 0 < length ss then
            (case someLowerCase (\<lambda>l. toLowerCase (toStr h (statusField d)) = l) ss of
               Inl e \<Rightarrow> Inl e
             | Inr hit \<Rightarrow> Inr (\<not> hit))
          else Inr False)"

definition typeExcluded :: "host \<Rightarrow> filters \<Rightarrow> deal \<Rightarrow> error + bool" where
  "typeExcluded h f d =
     (case dealIntentTypes f of
        None \<Rightarrow> Inr False
      | Some ts \<Rightarrow>
          if 0 < length ts then
            (case someLowerCase
                    (\<lambda>l. includesStr
                           (toLowerCase (toStr h (js_or (field d ''Deal Intent'') (JStr [])))) l)
                    ts of
               Inl e \<Rightarrow> Inl e
             | Inr hit \<Rightarrow> Inr (\<not> hit))
          else Inr False)"

text \<open>
  The date filter. A cell that is not a string has no \<open>split\<close>: the call throws, the
  \<open>catch\<close> logs it, and the record is kept.
\<close>

definition dateExcluded :: "host \<Rightarrow> filters \<Rightarrow> deal \<Rightarrow> bool" where
  "dateExcluded h f d =
     (let dateStr = js_or (field d ''Market Date'') (field d ''Market Date (Date)'')
      in case dateRange f of
           None \<Rightarrow> False
         | Some (startStr, endStr) \<Rightarrow>
             truthy dateStr
             \<and> (case dateStr of
                  JStr s \<Rightarrow>
                    (let dateParts = splitSlash s
                     in length dateParts = 3
                        \<and> (let dealDate = slashDate h dateParts
                           in dealDate \<noteq> NaN
                              \<and> (js_lt dealDate (parseDate h startStr)
                                 \<or> js_lt (parseDate h endStr) dealDate)))
                | _ \<Rightarrow> False))"

text \<open>
  The callback of \<open>deals.filter\<close>: the predicates in the order of the source, each one
  reached only when none before it has excluded the record. The result is whether the
  record is kept, or the error the callback threw.
\<close>

definition dealPasses :: "host \<Rightarrow> filters \<Rightarrow> deal \<Rightarrow> error + bool" where
  "dealPasses h f d =
     (if rangeExcluded (revenueRange f) (field d ''Revenue'') then Inr False
      else if rangeExcluded (ebitdaRange f) (field d ''EBITDA'') then Inr False
      else if rangeExcluded (pursuitsRange f) (field d ''Total Pursuits'') then Inr False
      else if setExcluded (verticals f) (field d ''Primary Supply Vertical'') then Inr False
      else if setExcluded (activities f) (field d ''Primary Supply Activity'') then Inr False
      else if setExcluded (regions f) (field d ''Region'') then Inr False
      else if setExcluded (states f) (field d ''State/Province'') then Inr False
      else if brokerExcluded h f d then Inr False
      else if flagsExcluded f d then Inr False
      else
        (case statusExcluded h f d of
           Inl e \<Rightarrow> Inl e
         | Inr excluded \<Rightarrow>
             if excluded then Inr False
             else
               (case typeExcluded h f d of
                  Inl e \<Rightarrow> Inl e
                | Inr excluded' \<Rightarrow>
                    if excluded' then Inr False
                    else if dateExcluded h f d then Inr False
                    else Inr True)))"

text \<open>
  \<open>Array.prototype.filter\<close> with a callback that may throw: the rows are tried from the
  left, and the first error ends the whole call. A row that is \<open>null\<close> is \<open>None\<close> and is
  dropped before any predicate is looked at.
\<close>

fun filterRows :: "(deal \<Rightarrow> error + bool) \<Rightarrow> deal option list \<Rightarrow> error + deal option list" where
  "filterRows p [] = Inr []"
| "filterRows p (row # rows) =
     (case row of
        None \<Rightarrow> filterRows p rows
      | Some d \<Rightarrow>
          (case p d of
             Inl e \<Rightarrow> Inl e
           | Inr keep \<Rightarrow>
               (case filterRows p rows of
                  Inl e \<Rightarrow> Inl e
                | Inr kept \<Rightarrow> Inr (if keep then row # kept else kept))))"

text \<open>
  \<open>filteredDeals\<close>: no rows give no rows, a missing filter state gives the rows as they
  are, and otherwise a row is kept when it is an object and passes every predicate.
\<close>

definition filteredDeals ::
  "host \<Rightarrow> filters option \<Rightarrow> deal option list \<Rightarrow> error + deal option list" where
  "filteredDeals h fo deals =
     (if deals = [] then Inr []
      else (case fo of
              None \<Rightarrow> Inr deals
            | Some f \<Rightarrow> filterRows (dealPasses h f) deals))"

text \<open>The simplified dashboard computes the SmartShare flag and its filter on its own.\<close>

definition flagEnabledSimplified :: "jsval \<Rightarrow> bool" where
  "flagEnabledSimplified val =
     (strictEq val (JNum (Fin 1)) \<or> strictEq val (JStr ''1'') \<or> strictEq val (JBool True))"

definition smartshareExcludedSimplified :: "bool option \<Rightarrow> deal \<Rightarrow> bool" where
  "smartshareExcludedSimplified flag d =
     (case flag of
        None \<Rightarrow> False
      | Some want \<Rightarrow> want \<noteq> flagEnabledSimplified (field d ''SmartShare Enabled?''))"

section \<open>The sort comparator\<close>

record sortConfig =
  key :: string
  direction :: string

text \<open>\<open>String(v).replace(/[^0-9.-]/g, '')\<close> followed by \<open>parseFloat\<close>.\<close>

definition stripNonNumeric :: "string \<Rightarrow> string" where
  "stripNonNumeric s = filter (\<lambda>c. isDigit c \<or> c = CHR ''.'' \<or> c = CHR ''-'') s"

definition sortNumber :: "host \<Rightarrow> jsval \<Rightarrow> jsnum" where
  "sortNumber h v = parseFloat (stripNonNumeric (toStr h v))"

text \<open>The first tier: a key that mentions a date, and two cells that both give a valid date.\<close>

definition dateCompare :: "host \<Rightarrow> sortConfig \<Rightarrow> jsval \<Rightarrow> jsval \<Rightarrow> jsnum option" where
  "dateCompare h cfg valA valB =
     (if includesStr (toLowerCase (key cfg)) ''date'' \<and> truthy valA \<and> truthy valB then
        (let partsA = splitSlash (toStr h valA);
             partsB = splitSlash (toStr h valB)
         in if length partsA = 3 \<and> length partsB = 3 then
              (let dateA = slashDate h partsA;
                   dateB = slashDate h partsB
               in if dateA \<noteq> NaN \<and> dateB \<noteq> NaN
                  then Some (if direction cfg = ''asc'' then js_sub dateA dateB
                             else js_sub dateB dateA)
                  else None)
            else None)
      else None)"

definition compareDeals :: "host \<Rightarrow> sortConfig \<Rightarrow> deal \<Rightarrow> deal \<Rightarrow> jsnum" where
  "compareDeals h cfg a b =
     (if key cfg = [] then Fin 0
      else
        (let valA = field a (key cfg);
             valB = field b (key cfg)
         in case dateCompare h cfg valA valB of
              Some r \<Rightarrow> r
            | None \<Rightarrow>
                (let numA = sortNumber h valA;
                     numB = sortNumber h valB
                 in if numA \<noteq> NaN \<and> numB \<noteq> NaN
                    then (if direction cfg = ''asc'' then js_sub numA numB else js_sub numB numA)
                    else if js_less valA valB
                    then (if direction cfg = ''asc'' then Fin (- 1) else Fin 1)
                    else if js_less valB valA
                    then (if direction cfg = ''asc'' then Fin 1 else Fin (- 1))
                    else Fin 0)))"

text \<open>
  \<open>Array.prototype.sort\<close> with a comparator: a positive result puts the second argument
  first, anything else (zero, negative, \<open>NaN\<close>) leaves the pair as it is. The sort is
  stable; it is modelled as the insertion of each element, from the right, into the sorted
  rest, passing only the elements that have to come before it. Where the comparator is
  consistent, every stable sort gives this order.
\<close>

fun insertSorted :: "('a \<Rightarrow> 'a \<Rightarrow> jsnum) \<Rightarrow> 'a \<Rightarrow> 'a list \<Rightarrow> 'a list" where
  "insertSorted cmp x [] = [x]"
| "insertSorted cmp x (y # ys) =
     (if js_lt (Fin 0) (cmp x y) then y # insertSorted cmp x ys else x # y # ys)"

definition arraySort :: "('a \<Rightarrow> 'a \<Rightarrow> jsnum) \<Rightarrow> 'a list \<Rightarrow> 'a list" where
  "arraySort cmp xs = foldr (insertSorted cmp) xs []"

definition sortedDeals :: "host \<Rightarrow> sortConfig \<Rightarrow> deal list \<Rightarrow> deal list" where
  "sortedDeals h cfg filtered = arraySort (compareDeals h cfg) filtered"

section \<open>The aggregator\<close>

text \<open>
  The counts live in an object literal, so a key is the string of the cell, and a key that
  \<open>Object.prototype\<close> already has reads as that inherited member until it is overwritten:
  the member is truthy, adding 1 to it concatenates, and the entry holds a string from then
  on. Assigning a string to \<open>__proto__\<close> stores nothing.
\<close>

definition objectProtoMembers :: "string list" where
  "objectProtoMembers =
     [''constructor'', ''__defineGetter__'', ''__defineSetter__'', ''hasOwnProperty'',
      ''__lookupGetter__'', ''__lookupSetter__'', ''isPrototypeOf'', ''propertyIsEnumerable'',
      ''toString'', ''valueOf'', ''__proto__'', ''toLocaleString'']"

definition bump :: "host \<Rightarrow> (string \<times> jsval) list \<Rightarrow> string \<Rightarrow> (string \<times> jsval) list" where
  "bump h counts k =
     (case map_of counts k of
        Some v \<Rightarrow> AList.update k (js_plus h (js_or v (JNum (Fin 0))) (JNum (Fin 1))) counts
      | None \<Rightarrow>
          if k \<in> set objectProtoMembers then
            (if k = ''__proto__'' then counts
             else AList.update k (JStr (protoMemberText h k @ ''1'')) counts)
          else AList.update k (js_plus h (JNum (Fin 0)) (JNum (Fin 1))) counts)"

definition countBy :: "host \<Rightarrow> string \<Rightarrow> deal list \<Rightarrow> (string \<times> jsval) list" where
  "countBy h fieldKey ds =
     foldl (\<lambda>counts deal.
              let v = field deal fieldKey
              in if truthy v then bump h counts (toStr h v) else counts) [] ds"

text \<open>
  \<open>Object.entries\<close>: the keys that are array indices first, in ascending numeric order, then
  the other keys in the order they were created.
\<close>

definition isArrayIndex :: "string \<Rightarrow> bool" where
  "isArrayIndex k =
     (k \<noteq> [] \<and> list_all isDigit k \<and> (k = ''0'' \<or> hd k \<noteq> CHR ''0'')
      \<and> digitsVal k \<le> 4294967294)"

definition objectEntries :: "(string \<times> jsval) list \<Rightarrow> (string \<times> jsval) list" where
  "objectEntries al =
     sort_key (\<lambda>e. digitsVal (fst e)) (filter (\<lambda>e. isArrayIndex (fst e)) al)
       @ filter (\<lambda>e. \<not> isArrayIndex (fst e)) al"

record group =
  name :: string
  val :: jsval
  percentage :: jsnum

text \<open>The callback of \<open>map\<close>: an entry with its share of all \<open>n\<close> filtered records.\<close>

definition chartEntry :: "nat \<Rightarrow> string \<times> jsval \<Rightarrow> group" where
  "chartEntry n e =
     \<lparr>name = fst e, val = snd e,
      percentage = js_mul (js_div (toNumber (snd e)) (Fin (of_nat n))) (Fin 100)\<rparr>"

definition chartData :: "host \<Rightarrow> string \<Rightarrow> deal list \<Rightarrow> group list" where
  "chartData h fieldKey filtered =
     (if length filtered = 0 then []
      else
        arraySort (\<lambda>a b. js_sub (toNumber (val b)) (toNumber (val a)))
          (map (chartEntry (length filtered)) (objectEntries (countBy h fieldKey filtered))))"

definition verticalChartData :: "host \<Rightarrow> deal list \<Rightarrow> group list" where
  "verticalChartData h filtered = chartData h ''Primary Supply Vertical'' filtered"

definition activityChartData :: "host \<Rightarrow> deal list \<Rightarrow> group list" where
  "activityChartData h filtered = chartData h ''Primary Supply Activity'' filtered"

text \<open>The percentages of all groups of a chart, added up.\<close>

definition percentageTotal :: "group list \<Rightarrow> jsnum" where
  "percentageTotal gs = foldl js_add (Fin 0) (map percentage gs)"

record summary =
  totalDeals :: nat
  totalRevenue :: jsval
  avgRevenue :: jsnum
  totalEBITDA :: jsval
  avgEBITDA :: jsnum

definition sumField :: "host \<Rightarrow> string \<Rightarrow> deal list \<Rightarrow> jsval" where
  "sumField h k ds =
     foldl (\<lambda>sum deal. js_plus h sum (js_or (field deal k) (JNum (Fin 0)))) (JNum (Fin 0)) ds"

definition summaryStats :: "host \<Rightarrow> deal list \<Rightarrow> summary option" where
  "summaryStats h filtered =
     (if length filtered = 0 then None
      else Some
        \<lparr>totalDeals = length filtered,
         totalRevenue = sumField h ''Revenue'' filtered,
         avgRevenue =
           js_div (toNumber (sumField h ''Revenue'' filtered)) (Fin (of_nat (length filtered))),
         totalEBITDA = sumField h ''EBITDA'' filtered,
         avgEBITDA =
           js_div (toNumber (sumField h ''EBITDA'' filtered)) (Fin (of_nat (length filtered)))\<rparr>)"

section \<open>A host and a filter state for the worked examples\<close>

text \<open>
  The host of the examples keeps its clock in UTC. The examples print no number outside
  the safe integers, parse no date string outside the ISO form and count no key that
  \<open>Object.prototype\<close> has, so its other three members are never consulted.
\<close>

definition utcHost :: host where
  "utcHost =
     \<lparr>numberText = (\<lambda>q. []), localTZA = (\<lambda>t. 0), dateParseOther = (\<lambda>s. NaN),
      protoMemberText = (\<lambda>k. [])\<rparr>"

text \<open>A filter state in which no predicate restricts anything.\<close>

definition unrestricted :: filters where
  "unrestricted =
     \<lparr>revenueRange = None, ebitdaRange = None, pursuitsRange = None, verticals = None,
      activities = None, regions = None, states = None, dateRange = None,
      includeBrokers = True, includeSmartshareEnabled = None,
      includeInboundInquiryEnabled = None, dealIntentStatuses = None,
      dealIntentTypes = None\<rparr>"


definition dealB :: deal where
  "dealB = [(''ID'', JStr ''b''), (''Revenue'', JNum (Fin 3000000))]"


definition retail :: deal where
  "retail = [(''Primary Supply Vertical'', JStr ''Retail'')]"

definition industrial :: deal where
  "industrial = [(''Primary Supply Vertical'', JStr ''Industrial'')]"

definition blank :: deal where
  "blank = [(''Primary Supply Vertical'', JNull)]"

section \<open>Notions used in the statements\<close>

text \<open>
  The day, counted from 1 January 1970, that \<open>new Date(y, m - 1, dd)\<close> makes of the month
  \<open>m\<close>, the day \<open>dd\<close> and the year \<open>y\<close> of a slash-delimited cell.
\<close>

definition slashDay :: "int \<Rightarrow> int \<Rightarrow> int \<Rightarrow> int option" where
  "slashDay m dd y = makeDay (makeFullYear y) (m - 1) dd"

text \<open>The ascending comparator asks for \<open>a\<close> to be placed after \<open>b\<close>.\<close>

definition comesAfter :: "host \<Rightarrow> string \<Rightarrow> deal \<Rightarrow> deal \<Rightarrow> bool" where
  "comesAfter h k a b = js_lt (Fin 0) (compareDeals h \<lparr>key = k, direction = ''asc''\<rparr> a b)"


text \<open>A cell read as a finite number, and 0 when it is anything else.\<close>

definition numericOrZero :: "jsval \<Rightarrow> rat" where
  "numericOrZero v = (case v of JNum (Fin q) \<Rightarrow> q | _ \<Rightarrow> 0)"

text \<open>A cell that is a finite number or is falsy (absent, \<open>null\<close>, empty, \<open>false\<close>, \<open>NaN\<close>).\<close>

definition numericOrMissing :: "jsval \<Rightarrow> bool" where
  "numericOrMissing v = (case v of JNum (Fin q) \<Rightarrow> True | _ \<Rightarrow> \<not> truthy v)"

text \<open>
  A list of numbers added the way \<open>reduce\<close> adds them: from the left, starting at 0, each
  addition rounded to a double.
\<close>

definition addFromLeft :: "rat list \<Rightarrow> jsnum" where
  "addFromLeft qs = foldl (\<lambda>s q. js_add s (Fin q)) (Fin 0) qs"

text \<open>
  The unit roundoff of the doubles: rounding changes a number of the normal range by at
  most this fraction of itself.
\<close>

definition unitRoundoff :: rat where
  "unitRoundoff = 1 / 2 ^ 53"

text \<open>A number lies within a tolerance of a target; \<open>NaN\<close> and the infinities never do.\<close>

definition withinTolerance :: "jsnum \<Rightarrow> rat \<Rightarrow> rat \<Rightarrow> bool" where
  "withinTolerance x target tol = (case x of Fin q \<Rightarrow> \<bar>q - target\<bar> \<le> tol | _ \<Rightarrow> False)"

text \<open>A value that is a positive whole number, as the counts of the aggregator are.\<close>

definition isCount :: "jsval \<Rightarrow> bool" where
  "isCount v = (case v of JNum (Fin q) \<Rightarrow> 0 < q \<and> q = of_int \<lfloor>q\<rfloor> | _ \<Rightarrow> False)"

section \<open>Evaluation rules\<close>

lemmas parseInt_eval = parseInt_def splitSign_def trimStart_def isWhite_def radixDigit_def
  hexVal_def radixVal_def


lemmas stringToNumber_eval = stringToNumber_def trim_def isWhite_def splitSign_def
  unsignedDecimal_def exponentPart_def isDigit_def digitsVal_def digitVal_def

lemmas toStr_eval = toStr_def numberToString_def isSafeInteger_def intText_def

lemmas date_eval = newDate_def finiteInt_def truncInt_def makeDay_def makeFullYear_def
  dayFromYear_def inLeapYear_def daysBeforeMonth_def daysInMonth_def msPerDay_def maxTime_def

section \<open>Rounding: properties\<close>

text \<open>Powers of two.\<close>

lemma p2_pos [simp]: "0 < (2::rat) powi e"
  by simp

lemma p2_le_iff: "((2::rat) powi a \<le> 2 powi b) = (a \<le> b)"
proof
  assume le: "(2::rat) powi a \<le> 2 powi b"
  show "a \<le> b"
  proof (rule ccontr)
    assume "\<not> a \<le> b"
    then have "b < a" by simp
    then have "(2::rat) powi b < 2 powi a" by (rule power_int_strict_increasing) simp
    with le show False by simp
  qed
next
  assume "a \<le> b"
  then show "(2::rat) powi a \<le> 2 powi b" by (rule power_int_increasing) simp
qed

lemma p2_less_iff: "((2::rat) powi a < 2 powi b) = (a < b)"
  using p2_le_iff [of b a] by (auto simp: not_le [symmetric])

lemma p2_add: "(2::rat) powi (a + b) = 2 powi a * 2 powi b"
  by (rule power_int_add) simp

lemma p2_diff: "(2::rat) powi (a - b) = 2 powi a / 2 powi b"
  by (rule power_int_diff) simp

lemma p2_nat: "0 \<le> e \<Longrightarrow> (2::rat) powi e = of_int (2 ^ nat e)"
  by (simp add: power_int_nonneg_exp)

lemma bitlen_rat_bounds:
  assumes "0 < n"
  shows "(2::rat) powi (bitlen n - 1) \<le> of_int n" and "of_int n < (2::rat) powi (bitlen n)"
proof -
  from bitlen_bounds [OF assms]
  have b: "2 ^ nat (bitlen n - 1) \<le> n" "n < 2 ^ nat (bitlen n)" by simp_all
  have ge1: "1 \<le> bitlen n"
    using assms bitlen_eq_zero_iff [of n] bitlen_nonneg [of n] by linarith
  have "(2::rat) powi (bitlen n - 1) = of_int (2 ^ nat (bitlen n - 1))"
    using ge1 by (intro p2_nat) simp
  also have "\<dots> \<le> of_int n" using b(1) by (simp only: of_int_le_iff)
  finally show "(2::rat) powi (bitlen n - 1) \<le> of_int n" .
  have "(of_int n :: rat) < of_int (2 ^ nat (bitlen n))" using b(2) by (simp only: of_int_less_iff)
  also have "\<dots> = (2::rat) powi (bitlen n)"
    using ge1 by (subst p2_nat) simp_all
  finally show "of_int n < (2::rat) powi (bitlen n)" .
qed

lemma floorLog2_bounds:
  assumes "0 < a"
  shows "2 powi (floorLog2 a) \<le> a \<and> a < 2 powi (floorLog2 a + 1)"
proof -
  obtain n d where qd: "quotient_of a = (n, d)" by (cases "quotient_of a")
  have d: "0 < d" using qd by (rule quotient_of_denom_pos)
  have a: "a = of_int n / of_int d" using qd by (rule quotient_of_div)
  have n: "0 < n"
  proof (rule ccontr)
    assume "\<not> 0 < n"
    then have "(of_int n :: rat) \<le> 0" by simp
    then have "a \<le> 0" unfolding a using d by (simp add: divide_nonpos_pos)
    with assms show False by simp
  qed
  define e where "e = bitlen n - bitlen d"
  note bn = bitlen_rat_bounds [OF n] and bd = bitlen_rat_bounds [OF d]
  have dpos: "(0::rat) < of_int d" using d by simp
  have lower: "2 powi (e - 1) \<le> a"
  proof -
    have "(2::rat) powi (e - 1) = 2 powi (bitlen n - 1) / 2 powi (bitlen d)"
      unfolding e_def by (simp add: p2_diff [symmetric] algebra_simps)
    also have "\<dots> \<le> of_int n / 2 powi (bitlen d)"
      using bn(1) by (simp add: divide_right_mono)
    also have "\<dots> \<le> of_int n / of_int d"
      using bd(2) n dpos by (intro divide_left_mono) (simp_all add: less_imp_le)
    finally show ?thesis unfolding a .
  qed
  have upper: "a < 2 powi (e + 1)"
  proof -
    have "a = of_int n / of_int d" by (rule a)
    also have "\<dots> < 2 powi (bitlen n) / of_int d"
      using bn(2) dpos by (simp add: divide_strict_right_mono)
    also have "\<dots> \<le> 2 powi (bitlen n) / 2 powi (bitlen d - 1)"
    proof (rule divide_left_mono)
      show "(2::rat) powi (bitlen d - 1) \<le> of_int d" by (rule bd(1))
      show "(0::rat) \<le> 2 powi bitlen n" by simp
      show "(0::rat) < of_int d * 2 powi (bitlen d - 1)" using d by simp
    qed
    also have "\<dots> = (2::rat) powi (e + 1)"
      unfolding e_def by (simp add: p2_diff [symmetric] algebra_simps)
    finally show ?thesis .
  qed
  have fl: "floorLog2 a = (if 2 powi e \<le> a then e else e - 1)"
    by (simp add: floorLog2_def qd e_def)
  show ?thesis
  proof (cases "2 powi e \<le> a")
    case True
    then show ?thesis using upper by (simp add: fl)
  next
    case False
    then show ?thesis using lower by (simp add: fl)
  qed
qed

lemma floorLog2_unique:
  assumes "0 < a" and "2 powi e \<le> a" and "a < 2 powi (e + 1)"
  shows "floorLog2 a = e"
proof -
  note b = floorLog2_bounds [OF assms(1)]
  have "(2::rat) powi e < 2 powi (floorLog2 a + 1)" using assms(2) b by simp
  then have 1: "e < floorLog2 a + 1" by (simp only: p2_less_iff)
  have "(2::rat) powi (floorLog2 a) < 2 powi (e + 1)" using assms(3) b by simp
  then have 2: "floorLog2 a < e + 1" by (simp only: p2_less_iff)
  from 1 2 show ?thesis by simp
qed

lemma roundHalfEven_int [simp]: "roundHalfEven (of_int i) = i"
  by (simp add: roundHalfEven_def)

lemma roundHalfEven_error: "\<bar>of_int (roundHalfEven x) - x\<bar> \<le> 1 / 2"
proof -
  define f where "f = \<lfloor>x\<rfloor>"
  define r where "r = x - of_int f"
  have r: "0 \<le> r" "r < 1" unfolding r_def f_def by linarith+
  have x: "x = of_int f + r" by (simp add: r_def)
  have rhe: "roundHalfEven x
               = (if r < 1 / 2 then f else if 1 / 2 < r then f + 1 else if even f then f else f + 1)"
    by (simp add: roundHalfEven_def Let_def f_def r_def)
  have err: "of_int (roundHalfEven x) - x = - r \<or> of_int (roundHalfEven x) - x = 1 - r"
    unfolding rhe by (simp add: x)
  show ?thesis
  proof (cases "r < 1 / 2")
    case True
    then have "of_int (roundHalfEven x) - x = - r" unfolding rhe by (simp add: x)
    then show ?thesis using r True by simp
  next
    case False
    note nlt = this
    show ?thesis
    proof (cases "1 / 2 < r")
      case True
      then have "of_int (roundHalfEven x) - x = 1 - r" unfolding rhe using nlt by (simp add: x)
      then show ?thesis using r True by simp
    next
      case False
      with nlt have "r = 1 / 2" by simp
      then show ?thesis using err by auto
    qed
  qed
qed

text \<open>
  A number that fits into 53 bits at an exponent the doubles have is a double: rounding
  leaves it as it is.
\<close>

lemma toDouble_abs_form:
  assumes "q \<noteq> 0"
  shows "toDouble q =
     (let a = \<bar>q\<bar>;
          e = max (floorLog2 a) (- 1022);
          r = of_int (roundHalfEven (a / 2 powi (e - 52))) * 2 powi (e - 52)
      in if 2 powi 1024 \<le> r then (if q < 0 then NegInf else PosInf)
         else Fin (if q < 0 then - r else r))"
  using assms by (simp add: toDouble_def Let_def)

lemma toDouble_exact:
  assumes m: "\<bar>m\<bar> < 2 ^ 53" and k: "- 1074 \<le> k"
    and range: "\<bar>of_int m * 2 powi k\<bar> < (2::rat) powi 1024"
  shows "toDouble (of_int m * 2 powi k) = Fin (of_int m * 2 powi k)"
proof (cases "m = 0")
  case True
  then show ?thesis by (simp add: toDouble_def)
next
  case False
  define q :: rat where "q = of_int m * 2 powi k"
  define n where "n = \<bar>m\<bar>"
  have n: "0 < n" "n < 2 ^ 53" using False m by (simp_all add: n_def)
  have q0: "q \<noteq> 0" using False by (simp add: q_def)
  have a: "\<bar>q\<bar> = of_int n * 2 powi k"
    by (simp add: q_def n_def abs_mult)
  note bn = bitlen_rat_bounds [OF n(1)]
  define e0 where "e0 = bitlen n - 1 + k"
  have fl: "floorLog2 \<bar>q\<bar> = e0"
  proof (rule floorLog2_unique)
    show "0 < \<bar>q\<bar>" using q0 by simp
    have "(2::rat) powi e0 = 2 powi (bitlen n - 1) * 2 powi k"
      by (simp add: e0_def p2_add)
    also have "\<dots> \<le> of_int n * 2 powi k"
      using bn(1) by (simp add: mult_right_mono)
    finally show "2 powi e0 \<le> \<bar>q\<bar>" by (simp only: a)
    have "of_int n * (2::rat) powi k < 2 powi (bitlen n) * 2 powi k"
      using bn(2) by (simp add: mult_strict_right_mono)
    also have "\<dots> = 2 powi (e0 + 1)"
      by (simp add: e0_def p2_add [symmetric])
    finally show "\<bar>q\<bar> < 2 powi (e0 + 1)" by (simp only: a)
  qed
  have "(of_int n :: rat) < of_int (2 ^ 53)" using n(2) by (simp only: of_int_less_iff)
  then have "(of_int n :: rat) < 2 powi 53" by simp
  with bn(1) have "(2::rat) powi (bitlen n - 1) < 2 powi 53" by simp
  then have bl: "bitlen n - 1 < 53" by (simp only: p2_less_iff)
  define e where "e = max e0 (- 1022)"
  define j where "j = k - e + 52"
  have j: "0 \<le> j" using bl k by (simp add: j_def e_def e0_def max_def)
  have quot: "\<bar>q\<bar> / 2 powi (e - 52) = of_int (n * 2 ^ nat j)"
  proof -
    have "\<bar>q\<bar> / 2 powi (e - 52) = of_int n * (2 powi k / 2 powi (e - 52))"
      by (simp add: a)
    also have "2 powi k / (2::rat) powi (e - 52) = 2 powi j"
      by (simp add: j_def p2_diff [symmetric] algebra_simps)
    also have "(2::rat) powi j = of_int (2 ^ nat j)" using j by (rule p2_nat)
    finally show ?thesis by simp
  qed
  have r: "of_int (roundHalfEven (\<bar>q\<bar> / 2 powi (e - 52))) * 2 powi (e - 52) = \<bar>q\<bar>"
  proof -
    have "of_int (roundHalfEven (\<bar>q\<bar> / 2 powi (e - 52))) * (2::rat) powi (e - 52)
            = of_int (n * 2 ^ nat j) * 2 powi (e - 52)"
      by (simp only: quot roundHalfEven_int)
    also have "\<dots> = of_int n * (2 powi j * 2 powi (e - 52))"
      using p2_nat [OF j] by simp
    also have "(2::rat) powi j * 2 powi (e - 52) = 2 powi k"
      by (simp add: j_def p2_add [symmetric])
    finally show ?thesis by (simp only: a)
  qed
  have nov: "\<not> 2 powi 1024 \<le> \<bar>q\<bar>" using range by (simp add: q_def)
  have "toDouble q = Fin (if q < 0 then - \<bar>q\<bar> else \<bar>q\<bar>)"
    unfolding toDouble_abs_form [OF q0] Let_def fl e_def [symmetric] r
    using nov by simp
  then show ?thesis by (simp add: q_def [symmetric] abs_if)
qed

lemma toDouble_int:
  assumes "\<bar>i\<bar> \<le> 2 ^ 53"
  shows "toDouble (of_int i) = Fin (of_int i)"
proof (cases "\<bar>i\<bar> < 2 ^ 53")
  case True
  have "\<bar>(of_int i :: rat)\<bar> < of_int (2 ^ 53)"
    using True by (simp only: of_int_abs [symmetric] of_int_less_iff)
  then have "\<bar>of_int i * 2 powi 0\<bar> < (2::rat) powi 1024" by simp
  from toDouble_exact [OF True _ this] show ?thesis by simp
next
  case False
  with assms have "\<bar>i\<bar> = 2 ^ 53" by simp
  then have "i = 2 ^ 53 \<or> i = - (2 ^ 53)" by (simp add: abs_if split: if_splits)
  moreover have "toDouble (of_int 1 * 2 powi 53) = Fin (of_int 1 * 2 powi 53)"
    by (rule toDouble_exact) simp_all
  moreover have "toDouble (of_int (- 1) * 2 powi 53) = Fin (of_int (- 1) * 2 powi 53)"
    by (rule toDouble_exact) simp_all
  ultimately show ?thesis by auto
qed

text \<open>
  The standard model of rounding: in the normal range the result is off by at most the
  fraction \<open>1 / 2 ^ 53\<close> of the exact value.
\<close>

lemma toDouble_standard:
  assumes lo: "2 powi (- 1022) \<le> \<bar>q\<bar>" and hi: "\<bar>q\<bar> \<le> 2 powi 1023"
  shows "\<exists>r. toDouble q = Fin r \<and> \<bar>r - q\<bar> \<le> \<bar>q\<bar> / 2 ^ 53"
proof -
  define a where "a = \<bar>q\<bar>"
  have apos: "0 < a" using lo p2_pos [of "- 1022"] unfolding a_def by linarith
  then have q0: "q \<noteq> 0" by (auto simp: a_def)
  define e where "e = floorLog2 a"
  note b = floorLog2_bounds [OF apos, folded e_def]
  have "(2::rat) powi (- 1022) < 2 powi (e + 1)" using lo b by (simp add: a_def)
  then have "- 1022 < e + 1" by (simp only: p2_less_iff)
  then have elo: "- 1022 \<le> e" by simp
  have "(2::rat) powi e \<le> 2 powi 1023" using hi b by (simp add: a_def)
  then have ehi: "e \<le> 1023" by (simp only: p2_le_iff)
  have emax: "max e (- 1022) = e" using elo by simp
  define ulp :: rat where "ulp = 2 powi (e - 52)"
  have ulp: "0 < ulp" by (simp add: ulp_def)
  define N where "N = roundHalfEven (a / ulp)"
  define r where "r = of_int N * ulp"
  have "\<bar>of_int N - a / ulp\<bar> \<le> 1 / 2" unfolding N_def by (rule roundHalfEven_error)
  then have "\<bar>of_int N - a / ulp\<bar> * ulp \<le> 1 / 2 * ulp"
    using ulp by (intro mult_right_mono) simp_all
  moreover have "\<bar>of_int N - a / ulp\<bar> * ulp = \<bar>r - a\<bar>"
  proof -
    have "\<bar>of_int N - a / ulp\<bar> * ulp = \<bar>(of_int N - a / ulp) * ulp\<bar>"
      using ulp by (simp add: abs_mult)
    also have "(of_int N - a / ulp) * ulp = r - a"
      using ulp by (simp add: r_def field_simps)
    finally show ?thesis .
  qed
  ultimately have err: "\<bar>r - a\<bar> \<le> ulp / 2" by simp
  have ulp2: "ulp / 2 = 2 powi e / 2 ^ 53"
  proof -
    have "ulp = 2 powi e / 2 powi 52" unfolding ulp_def by (rule p2_diff)
    then show ?thesis by simp
  qed
  have rel: "ulp / 2 \<le> a / 2 ^ 53"
    unfolding ulp2 using b by (simp add: divide_right_mono)
  have nov: "\<not> 2 powi 1024 \<le> r"
  proof -
    have "r \<le> a + ulp / 2" using err by linarith
    also have "\<dots> \<le> 2 powi 1023 + 2 powi 1023 / 2 ^ 53"
      using hi rel by (simp add: a_def add_mono divide_right_mono)
    also have "\<dots> < 2 powi 1024" by simp
    finally show ?thesis by simp
  qed
  have td: "toDouble q = Fin (if q < 0 then - r else r)"
    unfolding toDouble_abs_form [OF q0] Let_def a_def [symmetric] e_def [symmetric] emax
      ulp_def [symmetric] N_def [symmetric] r_def [symmetric]
    using nov by simp
  have "\<bar>(if q < 0 then - r else r) - q\<bar> = \<bar>r - a\<bar>"
    by (simp add: a_def abs_if)
  then have "\<bar>(if q < 0 then - r else r) - q\<bar> \<le> \<bar>q\<bar> / 2 ^ 53"
    using err rel by (simp add: a_def)
  with td show ?thesis by blast
qed

lemma mult_one_minus_inverse: "q * (1 - 1 / c) = q - q / (c::rat)"
  by (simp add: algebra_simps)

lemma mult_one_plus_inverse: "q * (1 + 1 / c) = q + q / (c::rat)"
  by (simp add: algebra_simps)

lemma toDouble_positive:
  assumes lo: "2 powi (- 1022) \<le> q" and hi: "q \<le> 2 powi 1023"
  shows "\<exists>r. toDouble q = Fin r \<and> q * (1 - 1 / 2 ^ 53) \<le> r \<and> r \<le> q * (1 + 1 / 2 ^ 53)"
proof -
  have q: "0 < q" using lo p2_pos [of "- 1022"] by linarith
  then have aq: "\<bar>q\<bar> = q" by simp
  from toDouble_standard [of q] lo hi aq
  obtain r where r: "toDouble q = Fin r" "\<bar>r - q\<bar> \<le> q / 2 ^ 53" by auto
  define u where "u = q / 2 ^ 53"
  from r(2) have "\<bar>r - q\<bar> \<le> u" by (simp only: u_def)
  then have "q - u \<le> r" "r \<le> q + u" by (simp_all add: abs_le_iff)
  moreover have "q * (1 - 1 / 2 ^ 53) = q - u" "q * (1 + 1 / 2 ^ 53) = q + u"
    unfolding u_def by (rule mult_one_minus_inverse, rule mult_one_plus_inverse)
  ultimately have "q * (1 - 1 / 2 ^ 53) \<le> r \<and> r \<le> q * (1 + 1 / 2 ^ 53)"
    by (simp only:)
  with r(1) show ?thesis by blast
qed


lemma toDouble_0 [simp]: "toDouble 0 = Fin 0"
  by (simp add: toDouble_def)

lemma toDouble_1 [simp]: "toDouble 1 = Fin 1"
  using toDouble_int [of 1] by simp

lemma toDouble_numeral [simp]:
  "(numeral w :: int) \<le> 9007199254740992 \<Longrightarrow> toDouble (numeral w) = Fin (numeral w)"
  using toDouble_int [of "numeral w"] by simp

lemma toDouble_neg_numeral [simp]:
  "(numeral w :: int) \<le> 9007199254740992 \<Longrightarrow> toDouble (- numeral w) = Fin (- numeral w)"
  using toDouble_int [of "- numeral w"] by simp

lemma toDouble_of_nat:
  "n \<le> 9007199254740992 \<Longrightarrow> toDouble (of_nat n) = Fin (of_nat n)"
  using toDouble_int [of "int n"] by simp

section \<open>The filter evaluator: properties\<close>

text \<open>A record is kept exactly when no predicate excludes it and none throws.\<close>

lemma dealPasses_iff:
  "(dealPasses h f d = Inr True) =
     (\<not> rangeExcluded (revenueRange f) (field d ''Revenue'')
      \<and> \<not> rangeExcluded (ebitdaRange f) (field d ''EBITDA'')
      \<and> \<not> rangeExcluded (pursuitsRange f) (field d ''Total Pursuits'')
      \<and> \<not> setExcluded (verticals f) (field d ''Primary Supply Vertical'')
      \<and> \<not> setExcluded (activities f) (field d ''Primary Supply Activity'')
      \<and> \<not> setExcluded (regions f) (field d ''Region'')
      \<and> \<not> setExcluded (states f) (field d ''State/Province'')
      \<and> \<not> brokerExcluded h f d
      \<and> \<not> flagsExcluded f d
      \<and> statusExcluded h f d = Inr False
      \<and> typeExcluded h f d = Inr False
      \<and> \<not> dateExcluded h f d)"
  unfolding dealPasses_def by (auto split: sum.splits)

text \<open>
  The predicates before the status filter cannot throw: a record that one of them excludes
  is dropped, whatever the lists of the status and type filters hold.
\<close>

lemma dealPasses_excluded_early:
  assumes "rangeExcluded (revenueRange f) (field d ''Revenue'')
           \<or> rangeExcluded (ebitdaRange f) (field d ''EBITDA'')
           \<or> rangeExcluded (pursuitsRange f) (field d ''Total Pursuits'')
           \<or> setExcluded (verticals f) (field d ''Primary Supply Vertical'')
           \<or> setExcluded (activities f) (field d ''Primary Supply Activity'')
           \<or> setExcluded (regions f) (field d ''Region'')
           \<or> setExcluded (states f) (field d ''State/Province'')
           \<or> brokerExcluded h f d
           \<or> flagsExcluded f d"
  shows "dealPasses h f d = Inr False"
  using assms unfolding dealPasses_def by auto

text \<open>With nothing restricted, and brokers included, every record passes.\<close>

lemma unrestricted_passes: "dealPasses h unrestricted d = Inr True"
  by (simp add: dealPasses_iff unrestricted_def rangeExcluded_def setExcluded_def
      brokerExcluded_def flagsExcluded_def statusExcluded_def typeExcluded_def dateExcluded_def)

subsection \<open>Range filters\<close>

lemma js_lt_NaN_right [simp]: "js_lt n NaN = False"
  by (cases n) simp_all

lemma js_less_num_right: "js_less v (JNum n) = js_lt (toNumber v) n"
  by (cases v) (simp_all add: js_less_def toNumber_def)

lemma js_less_num_left: "js_less (JNum n) v = js_lt n (toNumber v)"
  by (cases v) (simp_all add: js_less_def toNumber_def)

lemma rangeExcluded_toNumber:
  "rangeExcluded (Some (lo, hi)) v = (js_lt (toNumber v) lo \<or> js_lt hi (toNumber v))"
  by (simp add: rangeExcluded_def js_less_num_right js_less_num_left)

lemma rangeExcluded_NaN: "toNumber v = NaN \<Longrightarrow> \<not> rangeExcluded r v"
  by (cases r) (auto simp: rangeExcluded_def js_less_num_right js_less_num_left)

lemma stringToNumber_NA: "stringToNumber ''N/A'' = NaN"
  by (simp add: stringToNumber_eval)

text \<open>
  C1, as the code has it. A range filter compares the cell as JavaScript's \<open><\<close> and \<open>>\<close>
  convert it: a cell that is \<open>null\<close> (an empty cell) counts as 0, so the record is excluded
  whenever the minimum of the range is greater than 0; a cell that is absent, or a string
  that is not a numeric literal, converts to \<open>NaN\<close>, both comparisons are false, and the
  record is never excluded by that range filter. A record that one of the three range
  filters excludes does not pass the filter.
\<close>

theorem range_filter_coercion:
  "(field d k = JNull \<and> js_lt (Fin 0) lo \<longrightarrow> rangeExcluded (Some (lo, hi)) (field d k))
   \<and> (field d k = JUndefined \<or> (\<exists>s. field d k = JStr s \<and> stringToNumber s = NaN)
        \<longrightarrow> \<not> rangeExcluded r (field d k))
   \<and> rangeExcluded (Some (lo, hi)) (field d k)
        = (js_lt (toNumber (field d k)) lo \<or> js_lt hi (toNumber (field d k)))
   \<and> (rangeExcluded (revenueRange f) (field d ''Revenue'')
        \<or> rangeExcluded (ebitdaRange f) (field d ''EBITDA'')
        \<or> rangeExcluded (pursuitsRange f) (field d ''Total Pursuits'')
        \<longrightarrow> dealPasses h f d = Inr False)"
proof (intro conjI impI)
  assume "field d k = JNull \<and> js_lt (Fin 0) lo"
  then show "rangeExcluded (Some (lo, hi)) (field d k)"
    by (simp add: rangeExcluded_toNumber toNumber_def)
next
  assume "field d k = JUndefined \<or> (\<exists>s. field d k = JStr s \<and> stringToNumber s = NaN)"
  then have "toNumber (field d k) = NaN" by (auto simp: toNumber_def)
  then show "\<not> rangeExcluded r (field d k)" by (rule rangeExcluded_NaN)
next
  show "rangeExcluded (Some (lo, hi)) (field d k)
          = (js_lt (toNumber (field d k)) lo \<or> js_lt hi (toNumber (field d k)))"
    by (rule rangeExcluded_toNumber)
next
  assume "rangeExcluded (revenueRange f) (field d ''Revenue'')
        \<or> rangeExcluded (ebitdaRange f) (field d ''EBITDA'')
        \<or> rangeExcluded (pursuitsRange f) (field d ''Total Pursuits'')"
  then show "dealPasses h f d = Inr False" by (intro dealPasses_excluded_early) blast
qed

text \<open>
  With the revenue range of scenario A, 2,000,000 to 5,000,000: a record whose Revenue is
  \<open>null\<close> is excluded and does not pass, a record with no Revenue and a record whose
  Revenue is the text \<open>N/A\<close> are not excluded.
\<close>

theorem range_filter_coercion_witness:
  "rangeExcluded (Some (Fin 2000000, Fin 5000000)) (field [(''Revenue'', JNull)] ''Revenue'')
   \<and> dealPasses utcHost (unrestricted\<lparr>revenueRange := Some (Fin 2000000, Fin 5000000)\<rparr>)
         [(''Revenue'', JNull)] = Inr False
   \<and> \<not> rangeExcluded (Some (Fin 2000000, Fin 5000000)) (field [] ''Revenue'')
   \<and> \<not> rangeExcluded (Some (Fin 2000000, Fin 5000000))
         (field [(''Revenue'', JStr ''N/A'')] ''Revenue'')"
proof -
  let ?f = "unrestricted\<lparr>revenueRange := Some (Fin 2000000, Fin 5000000)\<rparr>"
  let ?r = "Some (Fin 2000000, Fin 5000000)"
  have r: "revenueRange ?f = ?r" by simp
  have 1: "field [(''Revenue'', JNull)] ''Revenue'' = JNull \<and> js_lt (Fin 0) (Fin 2000000)"
    by (simp add: field_def)
  have 2: "field [] ''Revenue'' = JUndefined
             \<or> (\<exists>s. field [] ''Revenue'' = JStr s \<and> stringToNumber s = NaN)"
    by (simp add: field_def)
  have 3: "field [(''Revenue'', JStr ''N/A'')] ''Revenue'' = JUndefined
             \<or> (\<exists>s. field [(''Revenue'', JStr ''N/A'')] ''Revenue'' = JStr s
                    \<and> stringToNumber s = NaN)"
    by (simp add: field_def stringToNumber_NA)
  have a: "rangeExcluded ?r (field [(''Revenue'', JNull)] ''Revenue'')"
    using range_filter_coercion [of "[(''Revenue'', JNull)]" "''Revenue''" "Fin 2000000"
            "Fin 5000000" ?r ?f utcHost] 1
    by blast
  then have "rangeExcluded (revenueRange ?f) (field [(''Revenue'', JNull)] ''Revenue'')"
    by (simp only: r)
  then have b: "dealPasses utcHost ?f [(''Revenue'', JNull)] = Inr False"
    using range_filter_coercion [of "[(''Revenue'', JNull)]" "''Revenue''" "Fin 2000000"
            "Fin 5000000" ?r ?f utcHost]
    by blast
  have c: "\<not> rangeExcluded ?r (field [] ''Revenue'')"
    using range_filter_coercion [of "[]" "''Revenue''" "Fin 2000000" "Fin 5000000" ?r ?f utcHost] 2
    by blast
  have d: "\<not> rangeExcluded ?r (field [(''Revenue'', JStr ''N/A'')] ''Revenue'')"
    using range_filter_coercion [of "[(''Revenue'', JStr ''N/A'')]" "''Revenue''"
            "Fin 2000000" "Fin 5000000" ?r ?f utcHost] 3
    by blast
  show ?thesis using a b c d by blast
qed

text \<open>
  C1 as the specification words it does not hold: with a revenue range whose minimum is
  2,000,000, a record with no Revenue cell at all and a record whose Revenue is the text
  \<open>N/A\<close> both pass the whole filter.
\<close>

theorem range_filter_missing_field_counterexample:
  "js_lt (Fin 0) (Fin 2000000)
   \<and> dealPasses utcHost (unrestricted\<lparr>revenueRange := Some (Fin 2000000, Fin 5000000)\<rparr>)
        [(''EBITDA'', JNum (Fin 3000000))] = Inr True
   \<and> dealPasses utcHost (unrestricted\<lparr>revenueRange := Some (Fin 2000000, Fin 5000000)\<rparr>)
        [(''Revenue'', JStr ''N/A'')] = Inr True"
proof -
  have 1: "\<not> rangeExcluded (Some (Fin 2000000, Fin 5000000))
               (field [(''EBITDA'', JNum (Fin 3000000))] ''Revenue'')"
    by (rule rangeExcluded_NaN) (simp add: field_def toNumber_def)
  have 2: "\<not> rangeExcluded (Some (Fin 2000000, Fin 5000000))
               (field [(''Revenue'', JStr ''N/A'')] ''Revenue'')"
    by (rule rangeExcluded_NaN) (simp add: field_def toNumber_def stringToNumber_NA)
  have rest: "(dealPasses utcHost (unrestricted\<lparr>revenueRange := Some (Fin 2000000, Fin 5000000)\<rparr>) d
                 = Inr True)
                = (\<not> rangeExcluded (Some (Fin 2000000, Fin 5000000)) (field d ''Revenue''))" for d
    by (simp add: dealPasses_iff unrestricted_def setExcluded_def brokerExcluded_def
        flagsExcluded_def statusExcluded_def typeExcluded_def dateExcluded_def)
       (simp add: rangeExcluded_def)
  show ?thesis using 1 2 by (simp add: rest)
qed

subsection \<open>The SmartShare and Inbound flags\<close>

lemma toUpperCase_TRUE: "toUpperCase ''TRUE'' = ''TRUE''"
  by (simp add: toUpperCase_def upperChar_def)

lemma toUpperCase_True: "toUpperCase ''True'' = ''TRUE''"
  by (simp add: toUpperCase_def upperChar_def)

lemma flagEnabled_iff:
  "flagEnabled v =
     (v = JNum (Fin 1) \<or> v = JStr ''1'' \<or> v = JBool True
      \<or> (\<exists>s. v = JStr s \<and> toUpperCase s = ''TRUE''))"
  by (cases v) (auto simp: flagEnabled_def strictEq_def)

lemma flagEnabledSimplified_iff:
  "flagEnabledSimplified v = (v = JNum (Fin 1) \<or> v = JStr ''1'' \<or> v = JBool True)"
  by (auto simp: flagEnabledSimplified_def strictEq_def)

text \<open>
  C2. With both flag filters set to \<open>true\<close> a record passes the flag predicates exactly
  when one of its two computed flags is enabled. In every other combination each flag
  filter that is not \<open>null\<close> has to equal the computed flag, and a \<open>null\<close> one asks nothing.
  A record that the flag predicates exclude is dropped by the whole filter, so a record
  that passes the whole filter has passed the flag predicates.
\<close>

theorem flag_filters_or_coupling:
  "(includeSmartshareEnabled f = Some True \<and> includeInboundInquiryEnabled f = Some True \<longrightarrow>
      (\<not> flagsExcluded f d)
        = (flagEnabled (field d ''SmartShare Enabled?'')
           \<or> flagEnabled (field d ''Inbound Inquiry Enabled?'')))
   \<and> (\<not> (includeSmartshareEnabled f = Some True \<and> includeInboundInquiryEnabled f = Some True) \<longrightarrow>
      (\<not> flagsExcluded f d)
        = ((includeSmartshareEnabled f = None
              \<or> includeSmartshareEnabled f = Some (flagEnabled (field d ''SmartShare Enabled?'')))
           \<and> (includeInboundInquiryEnabled f = None
              \<or> includeInboundInquiryEnabled f
                   = Some (flagEnabled (field d ''Inbound Inquiry Enabled?'')))))
   \<and> (flagsExcluded f d \<longrightarrow> dealPasses h f d = Inr False)
   \<and> (dealPasses h f d = Inr True \<longrightarrow> \<not> flagsExcluded f d)"
proof (intro conjI impI)
  assume "flagsExcluded f d"
  then show "dealPasses h f d = Inr False" by (intro dealPasses_excluded_early) blast
next
  assume "dealPasses h f d = Inr True"
  then show "\<not> flagsExcluded f d" by (simp add: dealPasses_iff)
qed (auto simp: flagsExcluded_def Let_def)

text \<open>
  Scenarios B and C of the specification: with both flags required, SmartShare \<open>"TRUE"\<close>
  and Inbound 0 passes, and SmartShare \<open>false\<close> with Inbound \<open>false\<close> is excluded.
\<close>

theorem flag_filters_or_coupling_witness:
  "\<not> flagsExcluded
        (unrestricted\<lparr>includeSmartshareEnabled := Some True,
                       includeInboundInquiryEnabled := Some True\<rparr>)
        [(''SmartShare Enabled?'', JStr ''TRUE''), (''Inbound Inquiry Enabled?'', JNum (Fin 0))]
   \<and> flagsExcluded
        (unrestricted\<lparr>includeSmartshareEnabled := Some True,
                       includeInboundInquiryEnabled := Some True\<rparr>)
        [(''SmartShare Enabled?'', JBool False), (''Inbound Inquiry Enabled?'', JBool False)]
   \<and> flagsExcluded (unrestricted\<lparr>includeSmartshareEnabled := Some False\<rparr>)
        [(''SmartShare Enabled?'', JStr ''TRUE''), (''Inbound Inquiry Enabled?'', JNum (Fin 0))]"
proof -
  let ?f = "unrestricted\<lparr>includeSmartshareEnabled := Some True,
                          includeInboundInquiryEnabled := Some True\<rparr>"
  let ?g = "unrestricted\<lparr>includeSmartshareEnabled := Some False\<rparr>"
  let ?b = "[(''SmartShare Enabled?'', JStr ''TRUE''), (''Inbound Inquiry Enabled?'', JNum (Fin 0))]"
  let ?c = "[(''SmartShare Enabled?'', JBool False), (''Inbound Inquiry Enabled?'', JBool False)]"
  have both: "includeSmartshareEnabled ?f = Some True \<and> includeInboundInquiryEnabled ?f = Some True"
    by simp
  have other: "\<not> (includeSmartshareEnabled ?g = Some True
                    \<and> includeInboundInquiryEnabled ?g = Some True)"
      "includeSmartshareEnabled ?g = Some False"
    by simp_all
  have b: "flagEnabled (field ?b ''SmartShare Enabled?'')"
    by (simp add: field_def flagEnabled_iff toUpperCase_TRUE)
  have c: "\<not> flagEnabled (field ?c ''SmartShare Enabled?'')"
          "\<not> flagEnabled (field ?c ''Inbound Inquiry Enabled?'')"
    by (simp_all add: field_def flagEnabled_iff)
  have 1: "\<not> flagsExcluded ?f ?b"
    using flag_filters_or_coupling [of ?f ?b utcHost] both b by blast
  have 2: "flagsExcluded ?f ?c"
    using flag_filters_or_coupling [of ?f ?c utcHost] both c by blast
  have 3: "flagsExcluded ?g ?b"
    using flag_filters_or_coupling [of ?g ?b utcHost] other b by auto
  show ?thesis using 1 2 3 by blast
qed

text \<open>
  C7. The two dashboards do not compute the SmartShare flag alike: the simplified one
  leaves out the test for a string that reads \<open>TRUE\<close> in any letter case. The cell \<open>True\<close>
  is enabled in the full dashboard and disabled in the simplified one, so with the filter
  set to enabled-only the same record is kept by the first and dropped by the second.
\<close>

theorem smartshare_variants_differ:
  "flagEnabled (JStr ''True'') \<and> \<not> flagEnabledSimplified (JStr ''True'')
   \<and> \<not> flagsExcluded (unrestricted\<lparr>includeSmartshareEnabled := Some True\<rparr>)
          [(''SmartShare Enabled?'', JStr ''True'')]
   \<and> smartshareExcludedSimplified (Some True) [(''SmartShare Enabled?'', JStr ''True'')]"
  by (simp add: flagEnabled_iff flagEnabledSimplified_iff toUpperCase_True flagsExcluded_def
      smartshareExcludedSimplified_def unrestricted_def field_def)

text \<open>On every other value the two computations agree.\<close>

lemma smartshare_variants_agree_elsewhere:
  "flagEnabled v = (flagEnabledSimplified v \<or> (\<exists>s. v = JStr s \<and> toUpperCase s = ''TRUE''))"
  by (simp add: flagEnabled_iff flagEnabledSimplified_iff)

subsection \<open>Broker owners\<close>

lemma toLowerCase_Broker: "toLowerCase ''Broker'' = ''broker''"
  by (simp add: toLowerCase_def lowerChar_def)

text \<open>
  C9. A record whose Account Owner is absent, empty or otherwise falsy is never excluded by
  the broker predicate, whatever \<open>includeBrokers\<close> is. The predicate excludes only when
  \<open>includeBrokers\<close> is false and the owner is present and reads \<open>broker\<close> in any letter case;
  such a record does not pass the filter.
\<close>

theorem broker_exclusion:
  "(\<not> truthy (field d ''Account Owner'') \<longrightarrow> \<not> brokerExcluded h f d)
   \<and> (brokerExcluded h f d \<longrightarrow>
        \<not> includeBrokers f \<and> truthy (field d ''Account Owner'')
        \<and> toLowerCase (toStr h (field d ''Account Owner'')) = ''broker'')
   \<and> (\<not> includeBrokers f \<and> field d ''Account Owner'' = JStr s \<and> toLowerCase s = ''broker'' \<longrightarrow>
        brokerExcluded h f d \<and> dealPasses h f d = Inr False)"
proof -
  have "dealPasses h f d = Inr False" if "brokerExcluded h f d"
    using that by (intro dealPasses_excluded_early) blast
  then show ?thesis
    by (auto simp: brokerExcluded_def truthy_def toStr_def toLowerCase_def)
qed

theorem broker_exclusion_witness:
  "\<not> brokerExcluded utcHost (unrestricted\<lparr>includeBrokers := False\<rparr>) [(''Account Owner'', JNull)]
   \<and> brokerExcluded utcHost (unrestricted\<lparr>includeBrokers := False\<rparr>)
        [(''Account Owner'', JStr ''Broker'')]
   \<and> dealPasses utcHost (unrestricted\<lparr>includeBrokers := False\<rparr>)
        [(''Account Owner'', JStr ''Broker'')] = Inr False"
proof -
  let ?f = "unrestricted\<lparr>includeBrokers := False\<rparr>"
  have 1: "\<not> truthy (field [(''Account Owner'', JNull)] ''Account Owner'')"
    by (simp add: field_def truthy_def)
  have 2: "\<not> includeBrokers ?f
           \<and> field [(''Account Owner'', JStr ''Broker'')] ''Account Owner'' = JStr ''Broker''
           \<and> toLowerCase ''Broker'' = ''broker''"
    by (simp add: field_def toLowerCase_Broker)
  show ?thesis
    using broker_exclusion [of "[(''Account Owner'', JNull)]" utcHost ?f]
          broker_exclusion [of "[(''Account Owner'', JStr ''Broker'')]" utcHost ?f "''Broker''"]
          1 2
    by blast
qed

subsection \<open>Deal intent status\<close>

lemma toLowerCase_Nil_iff: "(toLowerCase s = []) = (s = [])"
  by (simp add: toLowerCase_def)

lemma statusField_cases:
  "statusField d =
     (if truthy (field d ''Deal Intent Status'') then field d ''Deal Intent Status''
      else if truthy (field d ''Deal Intent'') then field d ''Deal Intent''
      else JStr [])"
  by (simp add: statusField_def js_or_def)

text \<open>What \<open>toLowerCase\<close> does to the letters, and that it leaves the other characters.\<close>

lemma toLowerCase_letters:
  "toLowerCase ''ABCDEFGHIJKLMNOPQRSTUVWXYZ'' = ''abcdefghijklmnopqrstuvwxyz''"
  "toLowerCase ''abcdefghijklmnopqrstuvwxyz'' = ''abcdefghijklmnopqrstuvwxyz''"
  "toLowerCase ''0123456789 -_/'' = ''0123456789 -_/''"
  by (simp_all add: toLowerCase_def lowerChar_def)

text \<open>On a list of strings the search cannot throw, and finds a hit when there is one.\<close>

lemma someLowerCase_strings:
  "someLowerCase p (map JStr strs) = Inr (\<exists>s\<in>set strs. p (toLowerCase s))"
  by (induction strs) simp_all

text \<open>
  An entry that is not a string throws as soon as it is reached, that is, when no string
  before it is a hit.
\<close>

lemma someLowerCase_non_string:
  assumes "\<not> isString v" and "\<forall>s\<in>set strs. \<not> p (toLowerCase s)"
  shows "someLowerCase p (map JStr strs @ v # rest) = Inl TypeError"
  using assms by (induction strs) (auto simp: isString_def split: jsval.splits)

text \<open>
  While every listed value is a string, the status filter is the one the specification
  describes. The status of a record is its Deal Intent Status, or its Deal Intent when the
  former is absent or falsy, or the empty string when both are; the record is excluded
  exactly when that status equals no listed value in any letter case, and a record with
  neither cell is excluded unless the empty string is listed.
\<close>

lemma status_filter_strings:
  assumes "dealIntentStatuses f = Some (map JStr strs)" and "strs \<noteq> []"
  shows "statusExcluded h f d
           = Inr (\<not> (\<exists>s\<in>set strs. toLowerCase (toStr h (statusField d)) = toLowerCase s))"
    and "\<not> truthy (field d ''Deal Intent Status'') \<and> \<not> truthy (field d ''Deal Intent'') \<Longrightarrow>
           statusExcluded h f d = Inr ([] \<notin> set strs)"
proof -
  show ex: "statusExcluded h f d
           = Inr (\<not> (\<exists>s\<in>set strs. toLowerCase (toStr h (statusField d)) = toLowerCase s))"
    using assms by (simp add: statusExcluded_def someLowerCase_strings)
  assume "\<not> truthy (field d ''Deal Intent Status'') \<and> \<not> truthy (field d ''Deal Intent'')"
  then have "statusField d = JStr []" by (simp add: statusField_cases)
  then have "statusExcluded h f d = Inr (\<not> (\<exists>s\<in>set strs. [] = toLowerCase s))"
    using ex by (simp add: toStr_def toLowerCase_def)
  also have "(\<exists>s\<in>set strs. [] = toLowerCase s) = ([] \<in> set strs)"
    using toLowerCase_Nil_iff by (metis (full_types))
  finally show "statusExcluded h f d = Inr ([] \<notin> set strs)" .
qed

text \<open>
  With the default list, \<open>['active']\<close>: a record whose only status cell is a Deal Intent
  reading \<open>ACTIVE\<close> is kept (the fallback, and the letter case), a record whose Deal Intent
  Status reads \<open>Closed\<close> is excluded although its Deal Intent reads \<open>active\<close> (the first
  cell wins), and a record with neither cell is excluded.
\<close>

lemma status_filter_examples:
  "statusExcluded utcHost (unrestricted\<lparr>dealIntentStatuses := Some [JStr ''active'']\<rparr>)
     [(''Deal Intent'', JStr ''ACTIVE'')] = Inr False"
  "statusExcluded utcHost (unrestricted\<lparr>dealIntentStatuses := Some [JStr ''active'']\<rparr>)
     [(''Deal Intent Status'', JStr ''Closed''), (''Deal Intent'', JStr ''active'')] = Inr True"
  "statusExcluded utcHost (unrestricted\<lparr>dealIntentStatuses := Some [JStr ''active'']\<rparr>) []
     = Inr True"
  by (simp_all add: statusExcluded_def statusField_def js_or_def field_def truthy_def toStr_def
      toLowerCase_def lowerChar_def)

text \<open>
  C10 does not hold of the code for every status filter. The options of the filter are the
  cells of the file, and the CSV parser turns a cell that reads as a number into a number.
  When the user adds such an option to the default list, the list is \<open>['active', 1]\<close>. For
  the record whose Deal Intent Status is that 1 the claim says it is kept, since its status
  matches a listed value. The code compares \<open>statusField.toString().toLowerCase()\<close> with
  \<open>s.toLowerCase()\<close>: the record's side is converted to a string first, the listed value
  is not, and a number has no \<open>toLowerCase\<close>. The predicate throws a \<open>TypeError\<close> instead of
  answering, and with it the callback and the whole of \<open>filteredDeals\<close>.
\<close>

theorem status_filter_type_error:
  "statusExcluded utcHost
      (unrestricted\<lparr>dealIntentStatuses := Some [JStr ''active'', JNum (Fin 1)]\<rparr>)
      [(''Deal Intent Status'', JNum (Fin 1))] = Inl TypeError
   \<and> dealPasses utcHost
      (unrestricted\<lparr>dealIntentStatuses := Some [JStr ''active'', JNum (Fin 1)]\<rparr>)
      [(''Deal Intent Status'', JNum (Fin 1))] = Inl TypeError
   \<and> filteredDeals utcHost
      (Some (unrestricted\<lparr>dealIntentStatuses := Some [JStr ''active'', JNum (Fin 1)]\<rparr>))
      [Some [(''Deal Intent Status'', JStr ''active'')],
       Some [(''Deal Intent Status'', JNum (Fin 1))]] = Inl TypeError"
proof -
  let ?f = "unrestricted\<lparr>dealIntentStatuses := Some [JStr ''active'', JNum (Fin 1)]\<rparr>"
  let ?d = "[(''Deal Intent Status'', JNum (Fin 1))]"
  let ?a = "[(''Deal Intent Status'', JStr ''active'')]"
  have text1: "toStr utcHost (JNum (Fin 1)) = ''1''"
    by (simp add: toStr_eval)
  have st: "statusExcluded utcHost ?f ?d = Inl TypeError"
    by (simp add: statusExcluded_def statusField_def js_or_def field_def truthy_def text1
        toLowerCase_def lowerChar_def)
  have early: "dealPasses utcHost ?f d
                 = (case statusExcluded utcHost ?f d of
                      Inl e \<Rightarrow> Inl e
                    | Inr excluded \<Rightarrow> if excluded then Inr False else Inr True)" for d
    by (simp add: dealPasses_def unrestricted_def rangeExcluded_def setExcluded_def
        brokerExcluded_def flagsExcluded_def typeExcluded_def dateExcluded_def
        split: sum.splits)
  have pd: "dealPasses utcHost ?f ?d = Inl TypeError"
    by (simp add: early st)
  have sa: "statusExcluded utcHost ?f ?a = Inr False"
    by (simp add: statusExcluded_def statusField_def js_or_def field_def truthy_def toStr_def
        toLowerCase_def lowerChar_def)
  have pa: "dealPasses utcHost ?f ?a = Inr True"
    by (simp add: early sa)
  have fd: "filteredDeals utcHost (Some ?f) [Some ?a, Some ?d] = Inl TypeError"
    by (simp add: filteredDeals_def pa pd)
  show ?thesis using st pd fd by blast
qed

subsection \<open>The date filter\<close>

lemma newDate_NaN: "y = NaN \<or> m = NaN \<or> dt = NaN \<Longrightarrow> newDate h y m dt = NaN"
  by (auto simp: newDate_def finiteInt_def split: option.splits jsnum.splits)

lemma js_sub_NaN_left [simp]: "js_sub NaN b = NaN"
  by (simp add: js_sub_def)

lemma slashDate_NaN:
  "parseInt (parts ! 0) = NaN \<or> parseInt (parts ! 1) = NaN \<or> parseInt (parts ! 2) = NaN
     \<Longrightarrow> slashDate h parts = NaN"
  unfolding slashDate_def by (rule newDate_NaN) auto

lemma dateExcluded_string:
  assumes "js_or (field d ''Market Date'') (field d ''Market Date (Date)'') = JStr s"
  shows "dateExcluded h f d =
          (case dateRange f of
             None \<Rightarrow> False
           | Some (a, b) \<Rightarrow>
               length (splitSlash s) = 3 \<and> slashDate h (splitSlash s) \<noteq> NaN
               \<and> (js_lt (slashDate h (splitSlash s)) (parseDate h a)
                  \<or> js_lt (parseDate h b) (slashDate h (splitSlash s))))"
proof (cases "s = []")
  case True
  then show ?thesis using assms
    by (simp add: dateExcluded_def truthy_def Let_def split: option.splits)
next
  case False
  then show ?thesis using assms
    by (simp add: dateExcluded_def truthy_def Let_def split: option.splits)
qed

lemma dateExcluded_market_date:
  assumes "field d ''Market Date'' = JStr s" and "s \<noteq> []" and "dateRange f = Some (a, b)"
  shows "dateExcluded h f d =
           (length (splitSlash s) = 3 \<and> slashDate h (splitSlash s) \<noteq> NaN
            \<and> (js_lt (slashDate h (splitSlash s)) (parseDate h a)
               \<or> js_lt (parseDate h b) (slashDate h (splitSlash s))))"
proof -
  have "js_or (field d ''Market Date'') (field d ''Market Date (Date)'') = JStr s"
    using assms(1,2) by (simp add: js_or_def truthy_def)
  from dateExcluded_string [OF this] assms(3) show ?thesis by simp
qed

lemma finiteInt_of_int: "finiteInt (Fin (of_int i)) = Some i"
  by (simp add: finiteInt_def truncInt_def)

text \<open>The date of three segments that \<open>parseInt\<close> reads as whole numbers.\<close>

lemma slashDate_whole_numbers:
  assumes "parseInt ms = Fin (of_int m)" and "parseInt ds = Fin (of_int dd)"
    and "parseInt ys = Fin (of_int y)" and "\<bar>m\<bar> < 9007199254740992"
  shows "slashDate h [ms, ds, ys] =
           (case slashDay m dd y of
              None \<Rightarrow> NaN
            | Some day \<Rightarrow>
                if \<bar>day * msPerDay - localTZA h (day * msPerDay)\<bar> > maxTime then NaN
                else Fin (of_int (day * msPerDay - localTZA h (day * msPerDay))))"
proof -
  have "\<bar>m - 1\<bar> \<le> 2 ^ 53" using assms(4) by simp
  then have "toDouble (of_int (m - 1)) = Fin (of_int (m - 1))" by (rule toDouble_int)
  then have "js_sub (Fin (of_int m)) (Fin 1) = Fin (of_int (m - 1))"
    by (simp add: js_sub_def)
  then have "slashDate h [ms, ds, ys]
               = newDate h (Fin (of_int y)) (Fin (of_int (m - 1))) (Fin (of_int dd))"
    by (simp add: slashDate_def assms(1-3) del: of_int_diff)
  also have "\<dots> =
           (case slashDay m dd y of
              None \<Rightarrow> NaN
            | Some day \<Rightarrow>
                if \<bar>day * msPerDay - localTZA h (day * msPerDay)\<bar> > maxTime then NaN
                else Fin (of_int (day * msPerDay - localTZA h (day * msPerDay))))"
    by (simp add: newDate_def finiteInt_of_int slashDay_def Let_def
        del: of_int_diff of_int_mult split: option.splits)
  finally show ?thesis .
qed

text \<open>
  C3, as the code has it. For a record whose Market Date is a non-empty string, and a date
  range: the date filter never excludes the record when the string does not split into
  exactly three segments at the slashes, or when a segment does not begin with an integer.
  Three segments that are whole numbers are taken as month, day and year by \<open>new Date\<close>,
  which carries a month or a day beyond the calendar over into the following months and
  years instead of rejecting it. The record is kept when \<open>new Date\<close> gives no valid date (a
  year beyond a million, a day more than 100,000,000 days from 1970). With a valid date and
  a range of two ISO dates, the record is excluded when the date falls on a day before the
  start day or on a day after the end day, and it is kept when the date falls on a day
  strictly between the two; on a host whose clock is UTC the start day and the end day are
  kept as well.
\<close>

theorem date_filter_slash_string:
  assumes "field d ''Market Date'' = JStr s" and "s \<noteq> []" and "dateRange f = Some (a, b)"
  shows "(length (splitSlash s) \<noteq> 3 \<longrightarrow> \<not> dateExcluded h f d)
       \<and> ((\<exists>i<3. parseInt (splitSlash s ! i) = NaN) \<longrightarrow> \<not> dateExcluded h f d)
       \<and> (splitSlash s = [ms, ds, ys]
            \<and> parseInt ms = Fin (of_int m) \<and> \<bar>m\<bar> < 9007199254740992
            \<and> parseInt ds = Fin (of_int dd) \<and> parseInt ys = Fin (of_int y) \<longrightarrow>
          (slashDay m dd y = None \<longrightarrow> \<not> dateExcluded h f d)
          \<and> (slashDay m dd y = Some day \<and> \<bar>localTZA h (day * msPerDay)\<bar> < msPerDay \<longrightarrow>
               (100000000 < \<bar>day\<bar> \<longrightarrow> \<not> dateExcluded h f d)
               \<and> (\<bar>day\<bar> < 100000000 \<and> isoDateOnly a = Some ta \<and> isoDateOnly b = Some tb \<longrightarrow>
                    (day * msPerDay + msPerDay \<le> ta \<or> tb + msPerDay \<le> day * msPerDay \<longrightarrow>
                       dateExcluded h f d)
                    \<and> (ta + msPerDay \<le> day * msPerDay \<and> day * msPerDay + msPerDay \<le> tb \<longrightarrow>
                       \<not> dateExcluded h f d)
                    \<and> (localTZA h (day * msPerDay) = 0 \<longrightarrow>
                       dateExcluded h f d = (day * msPerDay < ta \<or> tb < day * msPerDay)))))"
proof (intro conjI impI)
  note ex = dateExcluded_market_date [OF assms, of h]
  show "\<not> dateExcluded h f d" if "length (splitSlash s) \<noteq> 3"
    using that by (simp add: ex)
  show "\<not> dateExcluded h f d" if "\<exists>i<3. parseInt (splitSlash s ! i) = NaN"
  proof -
    from that obtain i where i: "i < 3" "parseInt (splitSlash s ! i) = NaN" by blast
    then have "i = 0 \<or> i = 1 \<or> i = 2" by arith
    with i(2) have "slashDate h (splitSlash s) = NaN"
      by (auto intro: slashDate_NaN)
    then show ?thesis by (simp add: ex)
  qed
  assume parts: "splitSlash s = [ms, ds, ys]
            \<and> parseInt ms = Fin (of_int m) \<and> \<bar>m\<bar> < 9007199254740992
            \<and> parseInt ds = Fin (of_int dd) \<and> parseInt ys = Fin (of_int y)"
  then have sd: "slashDate h (splitSlash s) =
           (case slashDay m dd y of
              None \<Rightarrow> NaN
            | Some day \<Rightarrow>
                if \<bar>day * msPerDay - localTZA h (day * msPerDay)\<bar> > maxTime then NaN
                else Fin (of_int (day * msPerDay - localTZA h (day * msPerDay))))"
    by (simp add: slashDate_whole_numbers)
  show "\<not> dateExcluded h f d" if "slashDay m dd y = None"
    using that by (simp add: ex sd)
  assume day: "slashDay m dd y = Some day \<and> \<bar>localTZA h (day * msPerDay)\<bar> < msPerDay"
  define t where "t = day * msPerDay"
  define z where "z = localTZA h t"
  have z: "\<bar>z\<bar> < 86400000" using day by (simp add: z_def t_def msPerDay_def)
  have t: "t = day * 86400000" by (simp add: t_def msPerDay_def)
  have sd': "slashDate h (splitSlash s) = (if \<bar>t - z\<bar> > maxTime then NaN else Fin (of_int (t - z)))"
    using day by (simp add: sd t_def z_def)
  show "\<not> dateExcluded h f d" if "100000000 < \<bar>day\<bar>"
  proof -
    have "\<bar>t - z\<bar> > maxTime" using that z unfolding t maxTime_def by arith
    then show ?thesis by (simp add: ex sd')
  qed
  assume inside: "\<bar>day\<bar> < 100000000 \<and> isoDateOnly a = Some ta \<and> isoDateOnly b = Some tb"
  have "\<not> \<bar>t - z\<bar> > maxTime" using inside z unfolding t maxTime_def by arith
  then have sd'': "slashDate h (splitSlash s) = Fin (of_int (t - z))" by (simp add: sd')
  have len: "length (splitSlash s) = 3" using parts by simp
  have pa: "parseDate h a = Fin (of_int ta)" and pb: "parseDate h b = Fin (of_int tb)"
    using inside by (simp_all add: parseDate_def)
  have iff: "dateExcluded h f d = (t - z < ta \<or> tb < t - z)"
    by (simp only: ex len sd'' pa pb js_lt.simps of_int_less_iff) simp
  show "dateExcluded h f d"
    if "day * msPerDay + msPerDay \<le> ta \<or> tb + msPerDay \<le> day * msPerDay"
    using that z unfolding iff t msPerDay_def by arith
  show "\<not> dateExcluded h f d"
    if "ta + msPerDay \<le> day * msPerDay \<and> day * msPerDay + msPerDay \<le> tb"
    using that z unfolding iff t msPerDay_def by arith
  show "dateExcluded h f d = (day * msPerDay < ta \<or> tb < day * msPerDay)"
    if "localTZA h (day * msPerDay) = 0"
    using that unfolding iff by (simp add: z_def t_def)
qed

lemma parseInt_2024: "parseInt ''2024'' = Fin 2024"
  by (simp add: parseInt_eval)

lemma parseInt_2023: "parseInt ''2023'' = Fin 2023"
  by (simp add: parseInt_eval)

lemma parseInt_300000: "parseInt ''300000'' = Fin 300000"
  by (simp add: parseInt_eval)

lemma parseInt_2000000: "parseInt ''2000000'' = Fin 2000000"
  by (simp add: parseInt_eval)

lemma parseInt_13: "parseInt ''13'' = Fin 13"
  by (simp add: parseInt_eval)

lemma parseInt_40: "parseInt ''40'' = Fin 40"
  by (simp add: parseInt_eval)

lemma parseInt_1: "parseInt ''1'' = Fin 1"
  by (simp add: parseInt_eval)

lemma parseInt_5: "parseInt ''5'' = Fin 5"
  by (simp add: parseInt_eval)

lemma parseInt_10: "parseInt ''10'' = Fin 10"
  by (simp add: parseInt_eval)

lemma parseInt_12: "parseInt ''12'' = Fin 12"
  by (simp add: parseInt_eval)

lemma parseInt_25: "parseInt ''25'' = Fin 25"
  by (simp add: parseInt_eval)

lemma parseInt_x: "parseInt ''x'' = NaN"
  by (simp add: parseInt_eval)

lemma splitSlash_13_40_2024: "splitSlash ''13/40/2024'' = [''13'', ''40'', ''2024'']"
  by simp

lemma splitSlash_1_5_2024: "splitSlash ''1/5/2024'' = [''1'', ''5'', ''2024'']"
  by simp

lemma splitSlash_1_10_2024: "splitSlash ''1/10/2024'' = [''1'', ''10'', ''2024'']"
  by simp

lemma splitSlash_12_25_2023: "splitSlash ''12/25/2023'' = [''12'', ''25'', ''2023'']"
  by simp

lemma splitSlash_1_1_300000: "splitSlash ''1/1/300000'' = [''1'', ''1'', ''300000'']"
  by simp

lemma splitSlash_1_1_2000000: "splitSlash ''1/1/2000000'' = [''1'', ''1'', ''2000000'']"
  by simp

lemma splitSlash_x_5_2024: "splitSlash ''x/5/2024'' = [''x'', ''5'', ''2024'']"
  by simp

text \<open>
  The days the examples fall on, counted from 1 January 1970. 13/40/2024 is read as the
  40th day of the 13th month of 2024, which is 9 February 2025.
\<close>

lemma slashDay_examples:
  "slashDay 1 5 2024 = Some 19727"
  "slashDay 1 10 2024 = Some 19732"
  "slashDay 12 25 2023 = Some 19716"
  "slashDay 13 40 2024 = Some 20128"
  "slashDay 2 9 2025 = Some 20128"
  "slashDay 1 1 300000 = Some 108853222"
  "slashDay 1 1 2000000 = None"
  by (simp_all add: slashDay_def date_eval)

lemma slashDate_13_40_2024:
  "slashDate utcHost [''13'', ''40'', ''2024''] = Fin 1739059200000"
  by (simp add: slashDate_def parseInt_2024 parseInt_13 parseInt_40 js_sub_def date_eval
      utcHost_def)

lemma isoDateOnly_2024_01_01: "isoDateOnly ''2024-01-01'' = Some 1704067200000"
  by (simp add: isoDateOnly_def isDigit_def digitsVal_def digitVal_def date_eval)

lemma isoDateOnly_2024_01_10: "isoDateOnly ''2024-01-10'' = Some 1704844800000"
  by (simp add: isoDateOnly_def isDigit_def digitsVal_def digitVal_def date_eval)

lemma parseDate_2024_01_01: "parseDate h ''2024-01-01'' = Fin 1704067200000"
  by (simp add: parseDate_def isoDateOnly_2024_01_01)

lemma parseDate_2024_01_10: "parseDate h ''2024-01-10'' = Fin 1704844800000"
  by (simp add: parseDate_def isoDateOnly_2024_01_10)

text \<open>
  Scenario D of the specification, in the code, on a host whose clock is UTC and with the
  range 2024-01-01 to 2024-01-10. The record dated 1/5/2024 is kept because the date lies
  in the range, and the one dated 1/10/2024 because the end day belongs to the range. The
  record dated 12/25/2023 is excluded. The record dated x/5/2024 is kept because its month
  is no number, the record dated 2023-06-01 because it has no slashes, although the date
  is outside the range, and the records dated 1/1/300000 and 1/1/2000000 because
  \<open>new Date\<close> gives no valid date.
\<close>

theorem date_filter_slash_string_witness:
  "\<not> dateExcluded utcHost (unrestricted\<lparr>dateRange := Some (''2024-01-01'', ''2024-01-10'')\<rparr>)
       [(''Market Date'', JStr ''1/5/2024'')]
   \<and> \<not> dateExcluded utcHost (unrestricted\<lparr>dateRange := Some (''2024-01-01'', ''2024-01-10'')\<rparr>)
       [(''Market Date'', JStr ''1/10/2024'')]
   \<and> dateExcluded utcHost (unrestricted\<lparr>dateRange := Some (''2024-01-01'', ''2024-01-10'')\<rparr>)
       [(''Market Date'', JStr ''12/25/2023'')]
   \<and> \<not> dateExcluded utcHost (unrestricted\<lparr>dateRange := Some (''2024-01-01'', ''2024-01-10'')\<rparr>)
       [(''Market Date'', JStr ''x/5/2024'')]
   \<and> \<not> dateExcluded utcHost (unrestricted\<lparr>dateRange := Some (''2024-01-01'', ''2024-01-10'')\<rparr>)
       [(''Market Date'', JStr ''2023-06-01'')]
   \<and> \<not> dateExcluded utcHost (unrestricted\<lparr>dateRange := Some (''2024-01-01'', ''2024-01-10'')\<rparr>)
       [(''Market Date'', JStr ''1/1/300000'')]
   \<and> \<not> dateExcluded utcHost (unrestricted\<lparr>dateRange := Some (''2024-01-01'', ''2024-01-10'')\<rparr>)
       [(''Market Date'', JStr ''1/1/2000000'')]"
proof -
  let ?f = "unrestricted\<lparr>dateRange := Some (''2024-01-01'', ''2024-01-10'')\<rparr>"
  have r: "dateRange ?f = Some (''2024-01-01'', ''2024-01-10'')" by simp
  have cell: "field [(''Market Date'', JStr s)] ''Market Date'' = JStr s" for s
    by (simp add: field_def)
  have zone: "\<bar>localTZA utcHost t\<bar> < msPerDay" "localTZA utcHost t = 0" for t
    by (simp_all add: utcHost_def msPerDay_def)
  note iso = isoDateOnly_2024_01_01 isoDateOnly_2024_01_10
  have 1: "\<not> dateExcluded utcHost ?f [(''Market Date'', JStr ''1/5/2024'')]"
  proof -
    have ne: "''1/5/2024'' \<noteq> []" by simp
    have parts: "splitSlash ''1/5/2024'' = [''1'', ''5'', ''2024'']
                 \<and> parseInt ''1'' = Fin (of_int 1) \<and> \<bar>1 :: int\<bar> < 9007199254740992
                 \<and> parseInt ''5'' = Fin (of_int 5) \<and> parseInt ''2024'' = Fin (of_int 2024)"
      by (simp only: splitSlash_1_5_2024 parseInt_1 parseInt_5 parseInt_2024) simp
    have day: "slashDay 1 5 2024 = Some 19727
               \<and> \<bar>localTZA utcHost (19727 * msPerDay)\<bar> < msPerDay"
      by (simp add: slashDay_examples utcHost_def msPerDay_def)
    have valid: "\<bar>19727 :: int\<bar> < 100000000
                 \<and> isoDateOnly ''2024-01-01'' = Some 1704067200000
                 \<and> isoDateOnly ''2024-01-10'' = Some 1704844800000"
      by (simp only: iso) simp
    have between: "1704067200000 + msPerDay \<le> 19727 * msPerDay
                   \<and> 19727 * msPerDay + msPerDay \<le> 1704844800000"
      by (simp add: msPerDay_def)
    show ?thesis
      using date_filter_slash_string [OF cell ne r, where h = utcHost and ms = "''1''"
              and ds = "''5''" and ys = "''2024''" and m = 1 and dd = 5 and y = 2024
              and day = 19727 and ta = 1704067200000 and tb = 1704844800000]
            parts day valid between
      by blast
  qed
  have 2: "\<not> dateExcluded utcHost ?f [(''Market Date'', JStr ''1/10/2024'')]"
  proof -
    have ne: "''1/10/2024'' \<noteq> []" by simp
    have parts: "splitSlash ''1/10/2024'' = [''1'', ''10'', ''2024'']
                 \<and> parseInt ''1'' = Fin (of_int 1) \<and> \<bar>1 :: int\<bar> < 9007199254740992
                 \<and> parseInt ''10'' = Fin (of_int 10) \<and> parseInt ''2024'' = Fin (of_int 2024)"
      by (simp only: splitSlash_1_10_2024 parseInt_1 parseInt_10 parseInt_2024) simp
    have day: "slashDay 1 10 2024 = Some 19732
               \<and> \<bar>localTZA utcHost (19732 * msPerDay)\<bar> < msPerDay"
      by (simp add: slashDay_examples utcHost_def msPerDay_def)
    have valid: "\<bar>19732 :: int\<bar> < 100000000
                 \<and> isoDateOnly ''2024-01-01'' = Some 1704067200000
                 \<and> isoDateOnly ''2024-01-10'' = Some 1704844800000"
      by (simp only: iso) simp
    have utc: "localTZA utcHost (19732 * msPerDay) = 0" by (rule zone)
    have inside: "\<not> (19732 * msPerDay < 1704067200000 \<or> 1704844800000 < 19732 * msPerDay)"
      by (simp add: msPerDay_def)
    show ?thesis
      using date_filter_slash_string [OF cell ne r, where h = utcHost and ms = "''1''"
              and ds = "''10''" and ys = "''2024''" and m = 1 and dd = 10 and y = 2024
              and day = 19732 and ta = 1704067200000 and tb = 1704844800000]
            parts day valid utc inside
      by blast
  qed
  have 3: "dateExcluded utcHost ?f [(''Market Date'', JStr ''12/25/2023'')]"
  proof -
    have ne: "''12/25/2023'' \<noteq> []" by simp
    have parts: "splitSlash ''12/25/2023'' = [''12'', ''25'', ''2023'']
                 \<and> parseInt ''12'' = Fin (of_int 12) \<and> \<bar>12 :: int\<bar> < 9007199254740992
                 \<and> parseInt ''25'' = Fin (of_int 25) \<and> parseInt ''2023'' = Fin (of_int 2023)"
      by (simp only: splitSlash_12_25_2023 parseInt_12 parseInt_25 parseInt_2023) simp
    have day: "slashDay 12 25 2023 = Some 19716
               \<and> \<bar>localTZA utcHost (19716 * msPerDay)\<bar> < msPerDay"
      by (simp add: slashDay_examples utcHost_def msPerDay_def)
    have valid: "\<bar>19716 :: int\<bar> < 100000000
                 \<and> isoDateOnly ''2024-01-01'' = Some 1704067200000
                 \<and> isoDateOnly ''2024-01-10'' = Some 1704844800000"
      by (simp only: iso) simp
    have before: "19716 * msPerDay + msPerDay \<le> 1704067200000
                  \<or> 1704844800000 + msPerDay \<le> 19716 * msPerDay"
      by (simp add: msPerDay_def)
    show ?thesis
      using date_filter_slash_string [OF cell ne r, where h = utcHost and ms = "''12''"
              and ds = "''25''" and ys = "''2023''" and m = 12 and dd = 25 and y = 2023
              and day = 19716 and ta = 1704067200000 and tb = 1704844800000]
            parts day valid before
      by blast
  qed
  have 4: "\<not> dateExcluded utcHost ?f [(''Market Date'', JStr ''x/5/2024'')]"
  proof -
    have ne: "''x/5/2024'' \<noteq> []" by simp
    have nan: "\<exists>i<3. parseInt (splitSlash ''x/5/2024'' ! i) = NaN"
      by (rule exI [of _ 0]) (simp only: splitSlash_x_5_2024, simp add: parseInt_x)
    show ?thesis
      using date_filter_slash_string [OF cell ne r, where h = utcHost] nan by blast
  qed
  have 5: "\<not> dateExcluded utcHost ?f [(''Market Date'', JStr ''2023-06-01'')]"
  proof -
    have ne: "''2023-06-01'' \<noteq> []" by simp
    have len: "length (splitSlash ''2023-06-01'') \<noteq> 3" by simp
    show ?thesis
      using date_filter_slash_string [OF cell ne r, where h = utcHost] len by blast
  qed
  have 6: "\<not> dateExcluded utcHost ?f [(''Market Date'', JStr ''1/1/300000'')]"
  proof -
    have ne: "''1/1/300000'' \<noteq> []" by simp
    have parts: "splitSlash ''1/1/300000'' = [''1'', ''1'', ''300000'']
                 \<and> parseInt ''1'' = Fin (of_int 1) \<and> \<bar>1 :: int\<bar> < 9007199254740992
                 \<and> parseInt ''1'' = Fin (of_int 1) \<and> parseInt ''300000'' = Fin (of_int 300000)"
      by (simp only: splitSlash_1_1_300000 parseInt_1 parseInt_300000) simp
    have day: "slashDay 1 1 300000 = Some 108853222
               \<and> \<bar>localTZA utcHost (108853222 * msPerDay)\<bar> < msPerDay"
      by (simp add: slashDay_examples utcHost_def msPerDay_def)
    have far: "100000000 < \<bar>108853222 :: int\<bar>" by simp
    show ?thesis
      using date_filter_slash_string [OF cell ne r, where h = utcHost and ms = "''1''"
              and ds = "''1''" and ys = "''300000''" and m = 1 and dd = 1 and y = 300000
              and day = 108853222]
            parts day far
      by blast
  qed
  have 7: "\<not> dateExcluded utcHost ?f [(''Market Date'', JStr ''1/1/2000000'')]"
  proof -
    have ne: "''1/1/2000000'' \<noteq> []" by simp
    have parts: "splitSlash ''1/1/2000000'' = [''1'', ''1'', ''2000000'']
                 \<and> parseInt ''1'' = Fin (of_int 1) \<and> \<bar>1 :: int\<bar> < 9007199254740992
                 \<and> parseInt ''1'' = Fin (of_int 1) \<and> parseInt ''2000000'' = Fin (of_int 2000000)"
      by (simp only: splitSlash_1_1_2000000 parseInt_1 parseInt_2000000) simp
    have none: "slashDay 1 1 2000000 = None" by (rule slashDay_examples)
    show ?thesis
      using date_filter_slash_string [OF cell ne r, where h = utcHost and ms = "''1''"
              and ds = "''1''" and ys = "''2000000''" and m = 1 and dd = 1 and y = 2000000]
            parts none
      by blast
  qed
  show ?thesis using 1 2 3 4 5 6 7 by blast
qed

text \<open>
  C3 as the specification words it does not hold: 13/40/2024 is not a calendar date, and
  the filter with the range 2024-01-01 to 2024-01-10 excludes the record, because the
  date is built as 9 February 2025 and compared.
\<close>

theorem date_filter_overflow_counterexample:
  "slashDate utcHost (splitSlash ''13/40/2024'') = Fin 1739059200000
   \<and> dateExcluded utcHost (unrestricted\<lparr>dateRange := Some (''2024-01-01'', ''2024-01-10'')\<rparr>)
       [(''Market Date'', JStr ''13/40/2024'')]
   \<and> dealPasses utcHost (unrestricted\<lparr>dateRange := Some (''2024-01-01'', ''2024-01-10'')\<rparr>)
       [(''Market Date'', JStr ''13/40/2024'')] = Inr False"
proof -
  let ?f = "unrestricted\<lparr>dateRange := Some (''2024-01-01'', ''2024-01-10'')\<rparr>"
  let ?d = "[(''Market Date'', JStr ''13/40/2024'')]"
  have sd: "slashDate utcHost (splitSlash ''13/40/2024'') = Fin 1739059200000"
    by (simp only: splitSlash_13_40_2024 slashDate_13_40_2024)
  have d: "js_or (field ?d ''Market Date'') (field ?d ''Market Date (Date)'') = JStr ''13/40/2024''"
    by (simp add: js_or_def field_def truthy_def)
  have len: "length (splitSlash ''13/40/2024'') = 3"
    by (simp only: splitSlash_13_40_2024) simp
  have ex: "dateExcluded utcHost ?f ?d"
    by (simp add: dateExcluded_string [OF d] len sd parseDate_2024_01_01 parseDate_2024_01_10
        del: splitSlash.simps)
  have "dealPasses utcHost ?f ?d = Inr (\<not> dateExcluded utcHost ?f ?d)"
    by (simp add: dealPasses_def unrestricted_def rangeExcluded_def setExcluded_def
        brokerExcluded_def flagsExcluded_def statusExcluded_def typeExcluded_def)
  then have "dealPasses utcHost ?f ?d = Inr False" using ex by simp
  with sd ex show ?thesis by blast
qed

text \<open>The same holds in every time zone: the offset of local time is less than a day.\<close>

lemma slashDate_13_40_2024_zone:
  assumes "\<bar>localTZA h 1739059200000\<bar> \<le> 86400000"
  shows "slashDate h [''13'', ''40'', ''2024''] = Fin (of_int (1739059200000 - localTZA h 1739059200000))"
  using assms
  by (simp add: slashDate_def parseInt_2024 parseInt_13 parseInt_40 js_sub_def date_eval)

lemma date_overflow_any_zone:
  assumes "\<bar>localTZA h 1739059200000\<bar> \<le> 86400000"
  shows "dateExcluded h (unrestricted\<lparr>dateRange := Some (''2024-01-01'', ''2024-01-10'')\<rparr>)
       [(''Market Date'', JStr ''13/40/2024'')]"
proof -
  let ?d = "[(''Market Date'', JStr ''13/40/2024'')]"
  have d: "js_or (field ?d ''Market Date'') (field ?d ''Market Date (Date)'') = JStr ''13/40/2024''"
    by (simp add: js_or_def field_def truthy_def)
  have len: "length (splitSlash ''13/40/2024'') = 3"
    by (simp only: splitSlash_13_40_2024) simp
  have sd: "slashDate h (splitSlash ''13/40/2024'') = Fin (of_int (1739059200000 - localTZA h 1739059200000))"
    by (simp only: splitSlash_13_40_2024 slashDate_13_40_2024_zone [OF assms])
  have "(1704844800000 :: rat) < of_int (1739059200000 - localTZA h 1739059200000)"
  proof -
    have "(1704844800000 :: int) < 1739059200000 - localTZA h 1739059200000" using assms by arith
    then have "(of_int 1704844800000 :: rat) < of_int (1739059200000 - localTZA h 1739059200000)"
      by (simp only: of_int_less_iff)
    then show ?thesis by simp
  qed
  then show ?thesis
    by (simp add: dateExcluded_string [OF d] len sd parseDate_2024_01_10 parseDate_2024_01_01
        del: splitSlash.simps of_int_diff)
qed

text \<open>
  The first of the month may lie before the earliest time value while the date itself is
  the earliest one: 20 April of the year -271821 is a valid date, the day before is not.
\<close>

lemma slashDay_earliest:
  "slashDay 4 20 (- 271821) = Some (- 100000000)"
  "slashDay 4 19 (- 271821) = Some (- 100000001)"
  by (simp_all add: slashDay_def date_eval)

section \<open>The sort: properties\<close>

subsection \<open>The comparator in the two directions\<close>









subsection \<open>The stable sort\<close>

lemma set_insertSorted [simp]: "set (insertSorted cmp x ys) = insert x (set ys)"
  by (induction ys) auto

lemma mset_insertSorted [simp]: "mset (insertSorted cmp x ys) = add_mset x (mset ys)"
  by (induction ys) auto

lemma arraySort_Cons: "arraySort cmp (x # xs) = insertSorted cmp x (arraySort cmp xs)"
  by (simp add: arraySort_def)

lemma arraySort_Nil [simp]: "arraySort cmp [] = []"
  by (simp add: arraySort_def)

lemma mset_arraySort [simp]: "mset (arraySort cmp xs) = mset xs"
  by (induction xs) (simp_all add: arraySort_Cons)

lemma set_arraySort [simp]: "set (arraySort cmp xs) = set xs"
  by (induction xs) (simp_all add: arraySort_Cons)





subsection \<open>Ascending against descending\<close>



















subsection \<open>Numeric columns\<close>

text \<open>
  Every double is a whole multiple of the smallest one, so two different doubles are at
  least that far apart, and their difference does not round to zero.
\<close>

lemma roundHalfEven_ge_floor: "\<lfloor>x\<rfloor> \<le> roundHalfEven x"
  by (simp add: roundHalfEven_def Let_def)

lemma toDouble_grid:
  assumes "toDouble q = Fin r"
  shows "\<exists>M. r = of_int M * 2 powi (- 1074)"
proof (cases "q = 0")
  case True
  then have "r = of_int 0 * 2 powi (- 1074)" using assms by (simp add: toDouble_def)
  then show ?thesis by blast
next
  case False
  define e where "e = max (floorLog2 \<bar>q\<bar>) (- 1022)"
  define N where "N = roundHalfEven (\<bar>q\<bar> / 2 powi (e - 52))"
  have "toDouble q = (if 2 powi 1024 \<le> of_int N * (2 :: rat) powi (e - 52)
                       then (if q < 0 then NegInf else PosInf)
                       else Fin (if q < 0 then - (of_int N * 2 powi (e - 52))
                                 else of_int N * 2 powi (e - 52)))"
    unfolding toDouble_abs_form [OF False] Let_def e_def [symmetric] N_def [symmetric] ..
  with assms have r: "r = (if q < 0 then - (of_int N * 2 powi (e - 52)) else of_int N * 2 powi (e - 52))"
    by (auto split: if_splits)
  have j: "0 \<le> e + 1022" by (simp add: e_def)
  have "e - 52 = (e + 1022) + (- 1074)" by simp
  then have "(2 :: rat) powi (e - 52) = 2 powi (e + 1022) * 2 powi (- 1074)"
    by (simp only: p2_add)
  also have "(2 :: rat) powi (e + 1022) = of_int (2 ^ nat (e + 1022))" using j by (rule p2_nat)
  finally have ulp: "(2 :: rat) powi (e - 52) = of_int (2 ^ nat (e + 1022)) * 2 powi (- 1074)" .
  show ?thesis
  proof (cases "q < 0")
    case True
    then have "r = of_int (- (N * 2 ^ nat (e + 1022))) * 2 powi (- 1074)"
      unfolding r ulp by simp
    then show ?thesis by blast
  next
    case False
    then have "r = of_int (N * 2 ^ nat (e + 1022)) * 2 powi (- 1074)"
      unfolding r ulp by simp
    then show ?thesis by blast
  qed
qed

lemma toDouble_positive_sign:
  assumes "2 powi (- 1074) \<le> d"
  shows "js_lt (Fin 0) (toDouble d)"
proof -
  have dpos: "0 < d" using assms p2_pos [of "- 1074"] by linarith
  then have d0: "d \<noteq> 0" and ad: "\<bar>d\<bar> = d" and nneg: "\<not> d < 0" by simp_all
  define e where "e = max (floorLog2 d) (- 1022)"
  define N where "N = roundHalfEven (d / 2 powi (e - 52))"
  have ulp_le: "2 powi (e - 52) \<le> d"
  proof (cases "- 1022 \<le> floorLog2 d")
    case True
    then have "e - 52 \<le> floorLog2 d" by (simp add: e_def)
    then have "(2 :: rat) powi (e - 52) \<le> 2 powi (floorLog2 d)" by (simp only: p2_le_iff)
    also have "\<dots> \<le> d" using floorLog2_bounds [OF dpos] by simp
    finally show ?thesis .
  next
    case False
    then have "e = - 1022" by (simp add: e_def)
    then have "(2 :: rat) powi (e - 52) = 2 powi (- 1074)" by simp
    with assms show ?thesis by simp
  qed
  have "1 \<le> d / 2 powi (e - 52)" using ulp_le by (simp add: le_divide_eq)
  then have "1 \<le> \<lfloor>d / 2 powi (e - 52)\<rfloor>" by (simp add: le_floor_iff)
  then have N: "1 \<le> N" unfolding N_def using roundHalfEven_ge_floor order_trans by blast
  then have rpos: "0 < of_int N * (2 :: rat) powi (e - 52)" by simp
  have "toDouble d = (if 2 powi 1024 \<le> of_int N * (2 :: rat) powi (e - 52) then PosInf
                       else Fin (of_int N * 2 powi (e - 52)))"
    unfolding toDouble_abs_form [OF d0] Let_def ad e_def [symmetric] N_def [symmetric]
    using nneg by simp
  then show ?thesis using rpos by simp
qed

lemma toDouble_nonpositive_sign:
  assumes "d \<le> 0"
  shows "\<not> js_lt (Fin 0) (toDouble d)"
proof (cases "d = 0")
  case True
  then show ?thesis by simp
next
  case False
  then have neg: "d < 0" using assms by simp
  define e where "e = max (floorLog2 \<bar>d\<bar>) (- 1022)"
  define N where "N = roundHalfEven (\<bar>d\<bar> / 2 powi (e - 52))"
  have "0 \<le> \<bar>d\<bar> / 2 powi (e - 52)" by simp
  then have "0 \<le> \<lfloor>\<bar>d\<bar> / 2 powi (e - 52)\<rfloor>" by (simp add: le_floor_iff)
  then have "0 \<le> N" unfolding N_def using roundHalfEven_ge_floor order_trans by blast
  then have rnn: "0 \<le> of_int N * (2 :: rat) powi (e - 52)" by simp
  have "toDouble d = (if 2 powi 1024 \<le> of_int N * (2 :: rat) powi (e - 52) then NegInf
                       else Fin (- (of_int N * 2 powi (e - 52))))"
    unfolding toDouble_abs_form [OF False] Let_def e_def [symmetric] N_def [symmetric]
    using neg by simp
  then show ?thesis using rnn by simp
qed

text \<open>The sign of the difference of two doubles is the order of the two.\<close>

lemma js_sub_sign:
  assumes "toDouble p = Fin x" and "toDouble q = Fin y"
  shows "js_lt (Fin 0) (js_sub (Fin x) (Fin y)) = (y < x)"
proof -
  from toDouble_grid [OF assms(1)] obtain M where M: "x = of_int M * 2 powi (- 1074)" by blast
  from toDouble_grid [OF assms(2)] obtain K where K: "y = of_int K * 2 powi (- 1074)" by blast
  have diff: "x - y = of_int (M - K) * 2 powi (- 1074)" by (simp add: M K algebra_simps)
  have sub: "js_sub (Fin x) (Fin y) = toDouble (x - y)" by (simp add: js_sub_def)
  show ?thesis
  proof (cases "y < x")
    case True
    then have "0 < x - y" by simp
    then have "0 < of_int (M - K) * (2 :: rat) powi (- 1074)" by (simp only: diff)
    from zero_less_mult_pos2 [OF this p2_pos] have "(0 :: rat) < of_int (M - K)" .
    then have "0 < M - K" by (simp only: of_int_0_less_iff)
    then have "1 \<le> M - K" by simp
    then have "(1 :: rat) \<le> of_int (M - K)" by (simp only: of_int_1_le_iff)
    then have "1 * 2 powi (- 1074) \<le> of_int (M - K) * (2 :: rat) powi (- 1074)"
      by (intro mult_right_mono) simp_all
    then have "2 powi (- 1074) \<le> x - y" by (simp add: diff)
    then show ?thesis using True toDouble_positive_sign by (simp add: sub)
  next
    case False
    then have "x - y \<le> 0" by simp
    then show ?thesis using False toDouble_nonpositive_sign by (simp add: sub)
  qed
qed

lemma parseFloat_cases:
  "parseFloat s = NaN \<or> parseFloat s = PosInf \<or> parseFloat s = NegInf
   \<or> (\<exists>q. parseFloat s = toDouble q)"
  by (auto simp: parseFloat_def Let_def split: prod.splits option.splits)

lemma js_sub_order:
  assumes X: "X = PosInf \<or> X = NegInf \<or> (\<exists>q. X = toDouble q)" and "X \<noteq> NaN"
    and Y: "Y = PosInf \<or> Y = NegInf \<or> (\<exists>q. Y = toDouble q)" and "Y \<noteq> NaN"
  shows "js_lt (Fin 0) (js_sub X Y) = js_lt Y X"
proof (cases X)
  case (Fin x)
  with X obtain p where p: "toDouble p = Fin x" by auto
  show ?thesis
  proof (cases Y)
    case (Fin y)
    with Y obtain q where q: "toDouble q = Fin y" by auto
    show ?thesis using js_sub_sign [OF p q] \<open>X = Fin x\<close> Fin by simp
  qed (use assms \<open>X = Fin x\<close> in \<open>simp_all add: js_sub_def\<close>)
qed (use assms in \<open>cases Y; simp add: js_sub_def\<close>)+

lemma js_lt_total_order:
  assumes "x \<noteq> NaN" "y \<noteq> NaN" "z \<noteq> NaN" and "\<not> js_lt y x" and "\<not> js_lt z y"
  shows "\<not> js_lt z x"
  using assms by (cases x; cases y; cases z) auto

text \<open>
  A column whose cells all read as numbers is compared by those numbers, and the
  comparator is a total order of the records, whatever the list.
\<close>

lemma comesAfter_numeric:
  assumes k: "k \<noteq> []" "\<not> includesStr (toLowerCase k) ''date''"
    and a: "sortNumber h (field a k) \<noteq> NaN" and b: "sortNumber h (field b k) \<noteq> NaN"
  shows "comesAfter h k a b = js_lt (sortNumber h (field b k)) (sortNumber h (field a k))"
proof -
  have range: "sortNumber h v = PosInf \<or> sortNumber h v = NegInf \<or> (\<exists>q. sortNumber h v = toDouble q)"
    if "sortNumber h v \<noteq> NaN" for v
    using that parseFloat_cases [of "stripNonNumeric (toStr h v)"] by (auto simp: sortNumber_def)
  have "comesAfter h k a b
          = js_lt (Fin 0) (js_sub (sortNumber h (field a k)) (sortNumber h (field b k)))"
    using k a b by (simp add: comesAfter_def compareDeals_def dateCompare_def)
  also have "\<dots> = js_lt (sortNumber h (field b k)) (sortNumber h (field a k))"
    by (rule js_sub_order [OF range [OF a] a range [OF b] b])
  finally show ?thesis .
qed

lemma numeric_key_total_order:
  assumes k: "k \<noteq> []" "\<not> includesStr (toLowerCase k) ''date''"
    and cells: "\<forall>d\<in>set ds. sortNumber h (field d k) \<noteq> NaN"
  shows "\<forall>a\<in>set ds. \<forall>b\<in>set ds. \<forall>c\<in>set ds.
           \<not> comesAfter h k a b \<and> \<not> comesAfter h k b c \<longrightarrow> \<not> comesAfter h k a c"
proof (intro ballI impI)
  fix a b c
  assume mem: "a \<in> set ds" "b \<in> set ds" "c \<in> set ds"
    and ab: "\<not> comesAfter h k a b \<and> \<not> comesAfter h k b c"
  have n: "sortNumber h (field a k) \<noteq> NaN" "sortNumber h (field b k) \<noteq> NaN"
      "sortNumber h (field c k) \<noteq> NaN"
    using cells mem by simp_all
  have "\<not> js_lt (sortNumber h (field b k)) (sortNumber h (field a k))"
    "\<not> js_lt (sortNumber h (field c k)) (sortNumber h (field b k))"
    using ab by (simp_all add: comesAfter_numeric [OF k] n)
  then have "\<not> js_lt (sortNumber h (field c k)) (sortNumber h (field a k))"
    by (rule js_lt_total_order [OF n])
  then show "\<not> comesAfter h k a c" by (simp add: comesAfter_numeric [OF k] n)
qed

subsection \<open>No sort key\<close>

text \<open>
  C6. With an empty sort key the comparator answers 0 for every pair, and the sort returns
  the records in the order it was given, whatever the direction.
\<close>

theorem sort_no_key: "sortedDeals h \<lparr>key = [], direction = dir\<rparr> ds = ds"
proof -
  have "insertSorted (compareDeals h \<lparr>key = [], direction = dir\<rparr>) x ys = x # ys" for x ys
    by (cases ys) (simp_all add: compareDeals_def)
  then have "arraySort (compareDeals h \<lparr>key = [], direction = dir\<rparr>) ds = ds"
    by (induction ds) (simp_all add: arraySort_Cons)
  then show ?thesis by (simp add: sortedDeals_def)
qed

section \<open>The aggregator: properties\<close>

subsection \<open>Accumulated rounding\<close>

lemma toDouble_minus_1 [simp]: "toDouble (- 1) = Fin (- 1)"
  using toDouble_int [of "- 1"] by simp

lemma unitRoundoff_pos: "0 < unitRoundoff"
  by (simp add: unitRoundoff_def)

lemma unitRoundoff_le_half: "unitRoundoff \<le> 1 / 2"
  by (simp add: unitRoundoff_def)

lemma toDouble_roundoff:
  assumes "2 powi (- 1022) \<le> q" and "q \<le> 2 powi 1023"
  shows "\<exists>r. toDouble q = Fin r \<and> q * (1 - unitRoundoff) \<le> r \<and> r \<le> q * (1 + unitRoundoff)"
  unfolding unitRoundoff_def using assms by (rule toDouble_positive)

lemma tiny_le: "2 powi (- 1022) \<le> (1 / 2 ^ 40 :: rat)"
proof -
  have "(1 / 2 ^ 40 :: rat) = 2 powi (- 40)" by (simp add: power_int_minus field_simps)
  then show ?thesis by (simp only: p2_le_iff)
qed

lemma huge_ge: "(256 :: rat) \<le> 2 powi 1023"
proof -
  have "(256 :: rat) = 2 powi 8" by simp
  then show ?thesis by (simp only: p2_le_iff)
qed

text \<open>Bernoulli's inequality, and its counterpart from above for small products.\<close>

lemma power_one_minus_ge:
  fixes x :: rat
  assumes "0 \<le> x" and "x \<le> 1"
  shows "1 - of_nat m * x \<le> (1 - x) ^ m"
proof (induction m)
  case 0
  show ?case by simp
next
  case (Suc m)
  have "1 - of_nat (Suc m) * x \<le> (1 - x) * (1 - of_nat m * x)"
  proof -
    have "(1 - x) * (1 - of_nat m * x) = 1 - of_nat (Suc m) * x + of_nat m * (x * x)"
      by (simp add: algebra_simps)
    moreover have "0 \<le> of_nat m * (x * x)" using assms(1) by simp
    ultimately show ?thesis by simp
  qed
  also have "\<dots> \<le> (1 - x) * (1 - x) ^ m"
    using Suc.IH assms(2) by (intro mult_left_mono) simp_all
  finally show ?case by simp
qed

lemma power_one_plus_le:
  fixes x :: rat
  assumes "0 \<le> x" and "of_nat m * x \<le> 1 / 2"
  shows "(1 + x) ^ m \<le> 1 + 2 * of_nat m * x"
  using assms(2)
proof (induction m)
  case 0
  show ?case by simp
next
  case (Suc m)
  have mx: "of_nat m * x \<le> 1 / 2"
  proof -
    have "of_nat m * x \<le> of_nat (Suc m) * x" using assms(1) by (intro mult_right_mono) simp_all
    with Suc.prems show ?thesis by simp
  qed
  have "(1 + x) ^ Suc m = (1 + x) * (1 + x) ^ m" by simp
  also have "\<dots> \<le> (1 + x) * (1 + 2 * of_nat m * x)"
    using Suc.IH [OF mx] assms(1) by (intro mult_left_mono) simp_all
  also have "\<dots> = 1 + 2 * of_nat m * x + x + x * (2 * (of_nat m * x))"
    by (simp add: algebra_simps)
  also have "\<dots> \<le> 1 + 2 * of_nat m * x + x + x * 1"
  proof -
    have "x * (2 * (of_nat m * x)) \<le> x * 1"
      using mx assms(1) by (intro mult_left_mono) simp_all
    then show ?thesis by simp
  qed
  also have "\<dots> = 1 + 2 * of_nat (Suc m) * x" by (simp add: algebra_simps)
  finally show ?case .
qed

text \<open>One percentage: the count is divided and the quotient multiplied, each with one rounding.\<close>

lemma percentage_bounds:
  fixes c n :: nat
  assumes c: "0 < c" "c \<le> n" and n: "n < 2 ^ 32"
  shows "\<exists>p. js_mul (js_div (Fin (of_nat c)) (Fin (of_nat n))) (Fin 100) = Fin p
            \<and> 100 * of_nat c / of_nat n * (1 - unitRoundoff) ^ 2 \<le> p
            \<and> p \<le> 100 * of_nat c / of_nat n * (1 + unitRoundoff) ^ 2"
proof -
  define u where "u = unitRoundoff"
  have u: "0 < u" "u \<le> 1 / 2" unfolding u_def by (rule unitRoundoff_pos, rule unitRoundoff_le_half)
  define q :: rat where "q = of_nat c / of_nat n"
  have npos: "(0 :: rat) < of_nat n" using c by simp
  have q1: "q \<le> 1" unfolding q_def using c npos by (simp add: divide_le_eq)
  have qlo: "1 / 2 ^ 32 \<le> q"
  proof -
    have "n \<le> 2 ^ 32" using n by simp
    then have "(of_nat n :: rat) \<le> of_nat (2 ^ 32)" by (simp only: of_nat_le_iff)
    then have "(of_nat n :: rat) \<le> 2 ^ 32" by simp
    then have "1 / 2 ^ 32 \<le> 1 / (of_nat n :: rat)" using npos by (intro divide_left_mono) simp_all
    also have "\<dots> \<le> of_nat c / of_nat n" using c npos by (intro divide_right_mono) simp_all
    finally show ?thesis by (simp only: q_def)
  qed
  have qpos: "0 < q" using qlo by (rule less_le_trans [rotated]) simp
  have "2 powi (- 1022) \<le> q"
  proof -
    have "(1 / 2 ^ 40 :: rat) \<le> 1 / 2 ^ 32" by simp
    from order_trans [OF tiny_le order_trans [OF this qlo]] show ?thesis .
  qed
  moreover have "q \<le> 2 powi 1023" using q1 huge_ge by linarith
  ultimately obtain x where x: "toDouble q = Fin x" "q * (1 - u) \<le> x" "x \<le> q * (1 + u)"
    unfolding u_def using toDouble_roundoff by blast
  have xlo: "1 / 2 ^ 33 \<le> x"
  proof -
    have "1 / 2 ^ 32 * (1 / 2) \<le> q * (1 - u)"
      using qlo u by (intro mult_mono) simp_all
    with x(2) show ?thesis by simp
  qed
  have xhi: "x \<le> 2"
  proof -
    have "q * (1 + u) \<le> 1 * 2" using q1 u qpos by (intro mult_mono) simp_all
    with x(3) show ?thesis by simp
  qed
  have "2 powi (- 1022) \<le> x * 100"
  proof -
    have "(1 / 2 ^ 40 :: rat) \<le> 1 / 2 ^ 33" by simp
    also have "\<dots> \<le> x" by (rule xlo)
    also have "\<dots> \<le> x * 100" using xlo by simp
    finally show ?thesis using tiny_le by linarith
  qed
  moreover have "x * 100 \<le> 2 powi 1023" using xhi huge_ge by linarith
  ultimately obtain p where p: "toDouble (x * 100) = Fin p" "x * 100 * (1 - u) \<le> p"
      "p \<le> x * 100 * (1 + u)"
    unfolding u_def using toDouble_roundoff by blast
  have n0: "(of_nat n :: rat) \<noteq> 0" using npos by simp
  have eval: "js_mul (js_div (Fin (of_nat c)) (Fin (of_nat n))) (Fin 100) = Fin p"
    using n0 x(1) p(1) by (simp add: q_def)
  have target: "100 * of_nat c / of_nat n = 100 * q" by (simp add: q_def)
  have lower: "100 * q * (1 - u) ^ 2 \<le> p"
  proof -
    have "100 * q * (1 - u) ^ 2 = q * (1 - u) * 100 * (1 - u)"
      by (simp add: power2_eq_square algebra_simps)
    also have "\<dots> \<le> x * 100 * (1 - u)"
      using x(2) u by (intro mult_right_mono) simp_all
    also have "\<dots> \<le> p" by (rule p(2))
    finally show ?thesis .
  qed
  have upper: "p \<le> 100 * q * (1 + u) ^ 2"
  proof -
    have "p \<le> x * 100 * (1 + u)" by (rule p(3))
    also have "\<dots> \<le> q * (1 + u) * 100 * (1 + u)"
      using x(3) u by (intro mult_right_mono) simp_all
    also have "\<dots> = 100 * q * (1 + u) ^ 2"
      by (simp add: power2_eq_square algebra_simps)
    finally show ?thesis .
  qed
  show ?thesis using eval lower upper by (simp only: target u_def) blast
qed

text \<open>One addition of the running total: the bounds grow by one factor.\<close>

lemma sum_step_bounds:
  fixes A C S p :: rat
  assumes A: "0 \<le> A" and C: "1 / 2 ^ 32 \<le> C" and AC: "A + C \<le> 100"
    and m: "2 \<le> m" "m < 2 ^ 40"
    and S: "A * (1 - unitRoundoff) ^ m \<le> S" "S \<le> A * (1 + unitRoundoff) ^ m"
    and p: "C * (1 - unitRoundoff) ^ 2 \<le> p" "p \<le> C * (1 + unitRoundoff) ^ 2"
  shows "\<exists>S'. js_add (Fin S) (Fin p) = Fin S'
            \<and> (A + C) * (1 - unitRoundoff) ^ Suc m \<le> S'
            \<and> S' \<le> (A + C) * (1 + unitRoundoff) ^ Suc m"
proof -
  define u where "u = unitRoundoff"
  note S = S [folded u_def] and p = p [folded u_def]
  have u: "0 < u" "u \<le> 1 / 2" unfolding u_def by (rule unitRoundoff_pos, rule unitRoundoff_le_half)
  have lo01: "0 \<le> 1 - u" "1 - u \<le> 1" using u by simp_all
  have hi1: "1 \<le> 1 + u" using u by simp
  have Cpos: "0 < C" using C by (rule less_le_trans [rotated]) simp
  have lo_m: "(1 - u) ^ m \<le> (1 - u) ^ 2" using lo01 m(1) by (intro power_decreasing) simp_all
  have hi_m: "(1 + u) ^ 2 \<le> (1 + u) ^ m" using hi1 m(1) by (intro power_increasing) simp_all
  have lo_sum: "(A + C) * (1 - u) ^ m \<le> S + p"
  proof -
    have "C * (1 - u) ^ m \<le> C * (1 - u) ^ 2" using lo_m Cpos by (intro mult_left_mono) simp_all
    then have "C * (1 - u) ^ m \<le> p" using p(1) by simp
    then show ?thesis using S(1) by (simp add: distrib_right)
  qed
  have hi_sum: "S + p \<le> (A + C) * (1 + u) ^ m"
  proof -
    have "C * (1 + u) ^ 2 \<le> C * (1 + u) ^ m" using hi_m Cpos by (intro mult_left_mono) simp_all
    then have "p \<le> C * (1 + u) ^ m" using p(2) by simp
    then show ?thesis using S(2) by (simp add: distrib_right)
  qed
  have hi_pow: "(1 + u) ^ m \<le> 2"
  proof -
    have "of_nat m * u \<le> 1 / 2"
    proof -
      have "m \<le> 2 ^ 40" using m(2) by simp
      then have "(of_nat m :: rat) \<le> of_nat (2 ^ 40)" by (simp only: of_nat_le_iff)
      then have "(of_nat m :: rat) \<le> 2 ^ 40" by simp
      then have "of_nat m * u \<le> 2 ^ 40 * (1 / 2 ^ 53)"
        unfolding u_def unitRoundoff_def by (intro mult_right_mono) simp_all
      also have "\<dots> \<le> 1 / 2" by simp
      finally show ?thesis .
    qed
    from power_one_plus_le [OF less_imp_le [OF u(1)] this] this
    show ?thesis by simp
  qed
  have plo: "1 / 2 ^ 34 \<le> p"
  proof -
    have "1 / 4 \<le> (1 - u) ^ 2"
    proof -
      have "(1 / 2) ^ 2 \<le> (1 - u) ^ 2" using u by (intro power_mono) simp_all
      then show ?thesis by (simp add: power2_eq_square)
    qed
    then have "1 / 2 ^ 32 * (1 / 4) \<le> C * (1 - u) ^ 2"
      using C by (intro mult_mono) simp_all
    with p(1) show ?thesis by simp
  qed
  have Snn: "0 \<le> S"
  proof -
    have "0 \<le> A * (1 - u) ^ m" using A lo01 by simp
    with S(1) show ?thesis by simp
  qed
  have "2 powi (- 1022) \<le> S + p"
  proof -
    have "(1 / 2 ^ 40 :: rat) \<le> 1 / 2 ^ 34" by simp
    also have "\<dots> \<le> S + p" using plo Snn by simp
    finally show ?thesis using tiny_le by linarith
  qed
  moreover have "S + p \<le> 2 powi 1023"
  proof -
    have "0 \<le> (1 + u) ^ m" using u by simp
    then have "(A + C) * (1 + u) ^ m \<le> 100 * 2"
      using AC hi_pow A Cpos by (intro mult_mono) simp_all
    with hi_sum huge_ge show ?thesis by linarith
  qed
  ultimately obtain S' where S': "toDouble (S + p) = Fin S'" "(S + p) * (1 - u) \<le> S'"
      "S' \<le> (S + p) * (1 + u)"
    unfolding u_def using toDouble_roundoff by blast
  have "(A + C) * (1 - u) ^ Suc m = (A + C) * (1 - u) ^ m * (1 - u)" by simp
  also have "\<dots> \<le> (S + p) * (1 - u)" using lo_sum lo01 by (intro mult_right_mono) simp_all
  also have "\<dots> \<le> S'" by (rule S'(2))
  finally have lower: "(A + C) * (1 - u) ^ Suc m \<le> S'" .
  have "S' \<le> (S + p) * (1 + u)" by (rule S'(3))
  also have "\<dots> \<le> (A + C) * (1 + u) ^ m * (1 + u)"
    using hi_sum u by (intro mult_right_mono) simp_all
  also have "\<dots> = (A + C) * (1 + u) ^ Suc m" by simp
  finally have upper: "S' \<le> (A + C) * (1 + u) ^ Suc m" .
  show ?thesis using S'(1) lower upper by (simp add: u_def)
qed

text \<open>The whole sum, added from the left.\<close>

lemma percentage_sum_bounds:
  fixes T :: "group \<Rightarrow> rat"
  assumes good: "\<forall>g\<in>set gs. \<exists>p. percentage g = Fin p
                    \<and> T g * (1 - unitRoundoff) ^ 2 \<le> p \<and> p \<le> T g * (1 + unitRoundoff) ^ 2
                    \<and> 1 / 2 ^ 32 \<le> T g"
    and A: "0 \<le> A" and tot: "A + sum_list (map T gs) \<le> 100"
    and m: "2 \<le> m" "m + length gs < 2 ^ 40"
    and S: "A * (1 - unitRoundoff) ^ m \<le> S" "S \<le> A * (1 + unitRoundoff) ^ m"
  shows "\<exists>S'. foldl js_add (Fin S) (map percentage gs) = Fin S'
            \<and> (A + sum_list (map T gs)) * (1 - unitRoundoff) ^ (m + length gs) \<le> S'
            \<and> S' \<le> (A + sum_list (map T gs)) * (1 + unitRoundoff) ^ (m + length gs)"
  using assms
proof (induction gs arbitrary: A m S)
  case Nil
  then show ?case by simp
next
  case (Cons g gs)
  from Cons.prems(1) obtain p where p: "percentage g = Fin p"
      "T g * (1 - unitRoundoff) ^ 2 \<le> p" "p \<le> T g * (1 + unitRoundoff) ^ 2"
      "1 / 2 ^ 32 \<le> T g"
    by auto
  have rest: "\<forall>g\<in>set gs. \<exists>p. percentage g = Fin p
                    \<and> T g * (1 - unitRoundoff) ^ 2 \<le> p \<and> p \<le> T g * (1 + unitRoundoff) ^ 2
                    \<and> 1 / 2 ^ 32 \<le> T g"
    using Cons.prems(1) by simp
  have "0 \<le> T x" if "x \<in> set gs" for x
  proof -
    from rest that have "1 / 2 ^ 32 \<le> T x" by blast
    then show ?thesis by (rule order_trans [rotated]) simp
  qed
  then have nn: "0 \<le> sum_list (map T gs)" by (intro sum_list_nonneg) auto
  have AT: "A + T g \<le> 100" using Cons.prems(3) nn by simp
  have m': "m < 2 ^ 40" using Cons.prems(5) by simp
  from sum_step_bounds [OF Cons.prems(2) p(4) AT Cons.prems(4) m' Cons.prems(6,7) p(2,3)]
  obtain S1 where S1: "js_add (Fin S) (Fin p) = Fin S1"
      "(A + T g) * (1 - unitRoundoff) ^ Suc m \<le> S1"
      "S1 \<le> (A + T g) * (1 + unitRoundoff) ^ Suc m"
    by blast
  have A': "0 \<le> A + T g"
  proof -
    have "0 \<le> T g" using p(4) by (rule order_trans [rotated]) simp
    with Cons.prems(2) show ?thesis by simp
  qed
  have tot': "A + T g + sum_list (map T gs) \<le> 100" using Cons.prems(3) by (simp add: add.assoc)
  have m2: "2 \<le> Suc m" using Cons.prems(4) by simp
  have m3: "Suc m + length gs < 2 ^ 40" using Cons.prems(5) by simp
  from Cons.IH [OF rest A' tot' m2 m3 S1(2,3)]
  obtain S' where S': "foldl js_add (Fin S1) (map percentage gs) = Fin S'"
      "(A + T g + sum_list (map T gs)) * (1 - unitRoundoff) ^ (Suc m + length gs) \<le> S'"
      "S' \<le> (A + T g + sum_list (map T gs)) * (1 + unitRoundoff) ^ (Suc m + length gs)"
    by blast
  have "foldl js_add (Fin S) (map percentage (g # gs))
          = foldl js_add (js_add (Fin S) (Fin p)) (map percentage gs)"
    by (simp add: p(1) del: js_add.simps)
  then have "foldl js_add (Fin S) (map percentage (g # gs)) = Fin S'"
    by (simp only: S1(1) S'(1))
  moreover have "A + sum_list (map T (g # gs)) = A + T g + sum_list (map T gs)"
    by (simp add: add.assoc)
  moreover have "m + length (g # gs) = Suc m + length gs" by simp
  ultimately show ?case using S'(2,3) by (simp only:) blast
qed

text \<open>From the two factors to a distance.\<close>

lemma bounds_to_tolerance:
  fixes B S :: rat
  assumes B: "0 \<le> B" "B \<le> 100" and M: "M < 2 ^ 40"
    and S: "B * (1 - unitRoundoff) ^ M \<le> S" "S \<le> B * (1 + unitRoundoff) ^ M"
  shows "\<bar>S - B\<bar> \<le> of_nat M / 2 ^ 45"
proof -
  define u where "u = unitRoundoff"
  note S = S [folded u_def]
  have u: "0 \<le> u" "u \<le> 1" unfolding u_def using unitRoundoff_pos unitRoundoff_le_half by simp_all
  have Mu: "of_nat M * u \<le> 1 / 2"
  proof -
    have "M \<le> 2 ^ 40" using M by simp
    then have "(of_nat M :: rat) \<le> of_nat (2 ^ 40)" by (simp only: of_nat_le_iff)
    then have "(of_nat M :: rat) \<le> 2 ^ 40" by simp
    then have "of_nat M * u \<le> 2 ^ 40 * (1 / 2 ^ 53)"
      unfolding u_def unitRoundoff_def by (intro mult_right_mono) simp_all
    also have "\<dots> \<le> 1 / 2" by simp
    finally show ?thesis .
  qed
  define d where "d = of_nat M * u"
  have d: "0 \<le> d" unfolding d_def using u by simp
  have hi: "(1 + u) ^ M \<le> 1 + 2 * d"
    using power_one_plus_le [OF u(1) Mu] by (simp add: d_def)
  have lo: "1 - d \<le> (1 - u) ^ M"
    using power_one_minus_ge [OF u] by (simp add: d_def)
  have up: "S - B \<le> 200 * d"
  proof -
    have "S \<le> B * (1 + 2 * d)" using S(2) hi B(1) by (meson mult_left_mono order_trans)
    then have "S - B \<le> B * (2 * d)" by (simp add: algebra_simps)
    also have "\<dots> \<le> 100 * (2 * d)" using B(2) d by (intro mult_right_mono) simp_all
    finally show ?thesis by simp
  qed
  have down: "B - S \<le> 200 * d"
  proof -
    have "B * (1 - d) \<le> S" using S(1) lo B(1) by (meson mult_left_mono order_trans)
    then have "B - S \<le> B * d" by (simp add: algebra_simps)
    also have "\<dots> \<le> 100 * d" using B(2) d by (intro mult_right_mono) simp_all
    also have "\<dots> \<le> 200 * d" using d by simp
    finally show ?thesis .
  qed
  define t :: rat where "t = of_nat M / 2 ^ 45"
  have t: "200 * d \<le> t"
  proof -
    have "200 * d = of_nat M * (200 / 2 ^ 53)" by (simp add: d_def u_def unitRoundoff_def)
    also have "\<dots> \<le> of_nat M * (1 / 2 ^ 45)" by (intro mult_left_mono) simp_all
    finally show ?thesis by (simp add: t_def)
  qed
  from up t have "S - B \<le> t" by (rule order_trans)
  moreover from down t have "B - S \<le> t" by (rule order_trans)
  ultimately have "\<bar>S - B\<bar> \<le> t" by linarith
  then show ?thesis by (simp only: t_def)
qed

subsection \<open>Counting\<close>

lemma isCount_iff: "isCount v = (\<exists>n. 0 < n \<and> v = JNum (Fin (of_nat n)))"
proof
  assume "isCount v"
  then obtain q where q: "v = JNum (Fin q)" "0 < q" "q = of_int \<lfloor>q\<rfloor>"
    by (auto simp: isCount_def split: jsval.splits jsnum.splits)
  have "0 < \<lfloor>q\<rfloor>" using q(2) q(3) by (metis of_int_0_less_iff)
  then have "0 < nat \<lfloor>q\<rfloor>" "(of_nat (nat \<lfloor>q\<rfloor>) :: rat) = of_int \<lfloor>q\<rfloor>" by simp_all
  then show "\<exists>n. 0 < n \<and> v = JNum (Fin (of_nat n))" using q(1,3) by metis
next
  assume "\<exists>n. 0 < n \<and> v = JNum (Fin (of_nat n))"
  then show "isCount v" by (auto simp: isCount_def)
qed

lemma sum_update_Some:
  "map_of al k = Some v \<Longrightarrow>
     sum_list (map (\<lambda>e. f (snd e)) (AList.update k v' al))
       = sum_list (map (\<lambda>e. f (snd e)) al) - f v + (f v' :: rat)"
  by (induction al) (auto split: if_splits)

lemma sum_update_None:
  "map_of al k = None \<Longrightarrow>
     sum_list (map (\<lambda>e. f (snd e)) (AList.update k v' al))
       = sum_list (map (\<lambda>e. f (snd e)) al) + (f v' :: rat)"
  by (induction al) (auto split: if_splits)

lemma set_update_cases:
  "e \<in> set (AList.update k v al) \<Longrightarrow> e = (k, v) \<or> e \<in> set al"
  by (induction al) (auto split: if_splits)

lemma isCount_ge_1: "isCount v \<Longrightarrow> 1 \<le> numericOrZero v"
  by (auto simp: isCount_iff numericOrZero_def)

lemma count_le_sum:
  assumes "\<forall>e\<in>set al. isCount (snd e)" and "e \<in> set al"
  shows "numericOrZero (snd e) \<le> sum_list (map (\<lambda>e. numericOrZero (snd e)) al)"
  using assms
proof (induction al)
  case Nil
  then show ?case by simp
next
  case (Cons a al)
  have nn: "0 \<le> sum_list (map (\<lambda>e. numericOrZero (snd e)) al)"
    using Cons.prems(1) by (intro sum_list_nonneg) (auto dest!: isCount_ge_1)
  have a: "0 \<le> numericOrZero (snd a)" using Cons.prems(1) isCount_ge_1 [of "snd a"] by simp
  show ?case
  proof (cases "e = a")
    case True
    then show ?thesis using nn by simp
  next
    case False
    then have "numericOrZero (snd e) \<le> sum_list (map (\<lambda>e. numericOrZero (snd e)) al)"
      using Cons by simp
    then show ?thesis using a by simp
  qed
qed

lemma length_le_sum:
  assumes "\<forall>e\<in>set al. isCount (snd e)"
  shows "of_nat (length al) \<le> sum_list (map (\<lambda>e. numericOrZero (snd e)) al)"
  using assms
proof (induction al)
  case Nil
  show ?case by simp
next
  case (Cons a al)
  have "1 \<le> numericOrZero (snd a)" using Cons.prems by (intro isCount_ge_1) simp
  moreover have "of_nat (length al) \<le> sum_list (map (\<lambda>e. numericOrZero (snd e)) al)"
    using Cons by simp
  ultimately show ?case by simp
qed

text \<open>Counts stay whole numbers as long as they stay below \<open>2 ^ 53\<close>.\<close>

lemma isCount_plus:
  assumes "isCount v" and "numericOrZero v + 1 \<le> 2 ^ 53"
  shows "js_plus h (js_or v (JNum (Fin 0))) (JNum (Fin 1)) = JNum (Fin (numericOrZero v + 1))
     \<and> isCount (JNum (Fin (numericOrZero v + 1)))"
proof -
  from assms(1) obtain n where n: "0 < n" "v = JNum (Fin (of_nat n))" by (auto simp: isCount_iff)
  have nv: "numericOrZero v = of_nat n" using n by (simp add: numericOrZero_def)
  have suc: "numericOrZero v + 1 = of_nat (Suc n)" using nv by simp
  have "(of_nat (Suc n) :: rat) \<le> of_nat (2 ^ 53)" using assms(2) suc by simp
  then have "Suc n \<le> 2 ^ 53" by (simp only: of_nat_le_iff)
  then have "toDouble (of_nat (Suc n)) = Fin (of_nat (Suc n))" by (intro toDouble_of_nat) simp
  then have add: "js_add (Fin (of_nat n)) (Fin 1) = Fin (of_nat (Suc n))"
    by (simp add: add.commute)
  have "isCount (JNum (Fin (of_nat (Suc n))))" unfolding isCount_iff by blast
  moreover have "js_plus h (js_or v (JNum (Fin 0))) (JNum (Fin 1)) = JNum (Fin (of_nat (Suc n)))"
    using n add by (simp add: js_plus_def js_or_def truthy_def isString_def toNumber_def
        del: js_add.simps of_nat_Suc)
  ultimately show ?thesis by (simp only: suc) 
qed

lemma isCount_one: "isCount (JNum (Fin 1))"
  unfolding isCount_iff by (rule exI [of _ 1]) simp

lemma bump_counts:
  assumes good: "\<forall>e\<in>set counts. isCount (snd e)"
    and key: "k \<notin> set objectProtoMembers"
    and bound: "sum_list (map (\<lambda>e. numericOrZero (snd e)) counts) + 1 \<le> 2 ^ 53"
  shows "(\<forall>e\<in>set (bump h counts k). isCount (snd e))
       \<and> sum_list (map (\<lambda>e. numericOrZero (snd e)) (bump h counts k))
           = sum_list (map (\<lambda>e. numericOrZero (snd e)) counts) + 1"
proof (cases "map_of counts k")
  case None
  have b: "bump h counts k = AList.update k (JNum (Fin 1)) counts"
    using None key by (simp add: bump_def js_plus_def isString_def toNumber_def)
  have "\<forall>e\<in>set (bump h counts k). isCount (snd e)"
    unfolding b using good isCount_one by (auto dest!: set_update_cases)
  moreover have "sum_list (map (\<lambda>e. numericOrZero (snd e)) (bump h counts k))
           = sum_list (map (\<lambda>e. numericOrZero (snd e)) counts) + 1"
    unfolding b by (simp add: sum_update_None [OF None] numericOrZero_def)
  ultimately show ?thesis by blast
next
  case (Some v)
  then have mem: "(k, v) \<in> set counts" by (rule map_of_SomeD)
  then have cv: "isCount v" using good by auto
  have "numericOrZero v \<le> sum_list (map (\<lambda>e. numericOrZero (snd e)) counts)"
    using count_le_sum [OF good mem] by simp
  then have "numericOrZero v + 1 \<le> 2 ^ 53" using bound by linarith
  note p = isCount_plus [OF cv this, of h]
  have b: "bump h counts k = AList.update k (JNum (Fin (numericOrZero v + 1))) counts"
    using Some p by (simp add: bump_def)
  have "\<forall>e\<in>set (bump h counts k). isCount (snd e)"
    unfolding b using good p by (auto dest!: set_update_cases)
  moreover have "sum_list (map (\<lambda>e. numericOrZero (snd e)) (bump h counts k))
           = sum_list (map (\<lambda>e. numericOrZero (snd e)) counts) + 1"
    unfolding b by (simp add: sum_update_Some [OF Some] numericOrZero_def)
  ultimately show ?thesis by blast
qed

lemma countBy_fold:
  assumes "\<forall>e\<in>set acc. isCount (snd e)"
    and "\<forall>d\<in>set ds. truthy (field d k) \<longrightarrow> toStr h (field d k) \<notin> set objectProtoMembers"
    and "sum_list (map (\<lambda>e. numericOrZero (snd e)) acc) + of_nat (length ds) \<le> 2 ^ 53"
  shows "(\<forall>e\<in>set (foldl (\<lambda>counts deal. let v = field deal k
              in if truthy v then bump h counts (toStr h v) else counts) acc ds). isCount (snd e))
       \<and> sum_list (map (\<lambda>e. numericOrZero (snd e))
            (foldl (\<lambda>counts deal. let v = field deal k
              in if truthy v then bump h counts (toStr h v) else counts) acc ds))
          = sum_list (map (\<lambda>e. numericOrZero (snd e)) acc)
              + of_nat (length (filter (\<lambda>d. truthy (field d k)) ds))"
  using assms
proof (induction ds arbitrary: acc)
  case Nil
  then show ?case by simp
next
  case (Cons d ds)
  have rest: "\<forall>d\<in>set ds. truthy (field d k) \<longrightarrow> toStr h (field d k) \<notin> set objectProtoMembers"
    using Cons.prems(2) by simp
  have len: "(of_nat (length (d # ds)) :: rat) = of_nat (length ds) + 1" by simp
  show ?case
  proof (cases "truthy (field d k)")
    case True
    have key: "toStr h (field d k) \<notin> set objectProtoMembers"
      using Cons.prems(2) True by simp
    have bound: "sum_list (map (\<lambda>e. numericOrZero (snd e)) acc) + 1 \<le> 2 ^ 53"
    proof -
      have "(0 :: rat) \<le> of_nat (length ds)" by simp
      with Cons.prems(3) len show ?thesis by linarith
    qed
    note b = bump_counts [OF Cons.prems(1) key bound, of h]
    have bound': "sum_list (map (\<lambda>e. numericOrZero (snd e)) (bump h acc (toStr h (field d k))))
                    + of_nat (length ds) \<le> 2 ^ 53"
      using Cons.prems(3) len conjunct2 [OF b] by linarith
    show ?thesis
      using Cons.IH [OF conjunct1 [OF b] rest bound'] True b by (simp add: Let_def)
  next
    case False
    have bound': "sum_list (map (\<lambda>e. numericOrZero (snd e)) acc) + of_nat (length ds) \<le> 2 ^ 53"
      using Cons.prems(3) len by linarith
    show ?thesis
      using Cons.IH [OF Cons.prems(1) rest bound'] False by (simp add: Let_def)
  qed
qed

lemma countBy_counts:
  assumes keys: "\<forall>d\<in>set ds. truthy (field d k) \<longrightarrow> toStr h (field d k) \<notin> set objectProtoMembers"
    and size: "length ds < 2 ^ 32"
  shows "(\<forall>e\<in>set (countBy h k ds). isCount (snd e))
       \<and> sum_list (map (\<lambda>e. numericOrZero (snd e)) (countBy h k ds))
          = of_nat (length (filter (\<lambda>d. truthy (field d k)) ds))"
proof -
  have "length ds \<le> 2 ^ 53"
  proof -
    have "(2 :: nat) ^ 32 \<le> 2 ^ 53" by simp
    with size show ?thesis by linarith
  qed
  then have "(of_nat (length ds) :: rat) \<le> of_nat (2 ^ 53)" by (simp only: of_nat_le_iff)
  then have "sum_list (map (\<lambda>e. numericOrZero (snd e)) []) + (of_nat (length ds) :: rat) \<le> 2 ^ 53"
    by simp
  from countBy_fold [of "[]" ds k h, OF _ keys this] show ?thesis
    unfolding countBy_def by simp
qed

subsection \<open>Percentages\<close>

lemma sum_list_mset_cong:
  "mset xs = mset ys \<Longrightarrow> sum_list (map f xs) = (sum_list (map f ys) :: rat)"
proof -
  assume "mset xs = mset ys"
  then have "mset (map f xs) = mset (map f ys)" by simp
  then have "sum_mset (mset (map f xs)) = sum_mset (mset (map f ys))" by (rule arg_cong)
  then show ?thesis by (simp only: sum_mset_sum_list)
qed

lemma mset_objectEntries: "mset (objectEntries al) = mset al"
  by (simp add: objectEntries_def)

lemma set_objectEntries: "set (objectEntries al) = set al"
  using mset_objectEntries by (rule mset_eq_setD)

lemma length_objectEntries: "length (objectEntries al) = length al"
  using mset_objectEntries [of al] by (rule mset_eq_length)

lemma length_arraySort: "length (arraySort cmp xs) = length xs"
  using mset_arraySort [of cmp xs] by (rule mset_eq_length)

lemma sum_list_scaled:
  "sum_list (map (\<lambda>e. c * f e / d) es) = c * sum_list (map f es) / (d :: rat)"
  by (induction es) (simp_all add: algebra_simps add_divide_distrib)

text \<open>The percentage of a group whose count is a whole number from 1 to \<open>n\<close>.\<close>

lemma chartEntry_bounds:
  assumes count: "isCount (snd e)" and le: "numericOrZero (snd e) \<le> of_nat n"
    and n: "n < 2 ^ 32"
  shows "\<exists>p. percentage (chartEntry n e) = Fin p
            \<and> 100 * numericOrZero (val (chartEntry n e)) / of_nat n * (1 - unitRoundoff) ^ 2 \<le> p
            \<and> p \<le> 100 * numericOrZero (val (chartEntry n e)) / of_nat n * (1 + unitRoundoff) ^ 2
            \<and> 1 / 2 ^ 32 \<le> 100 * numericOrZero (val (chartEntry n e)) / of_nat n"
proof -
  from count obtain c where c: "0 < c" "snd e = JNum (Fin (of_nat c))"
    by (auto simp: isCount_iff)
  have nv: "numericOrZero (snd e) = of_nat c" using c by (simp add: numericOrZero_def)
  have "(of_nat c :: rat) \<le> of_nat n" using le nv by simp
  then have cn: "c \<le> n" by (simp only: of_nat_le_iff)
  from percentage_bounds [OF c(1) cn n]
  obtain p where p: "js_mul (js_div (Fin (of_nat c)) (Fin (of_nat n))) (Fin 100) = Fin p"
      "100 * of_nat c / of_nat n * (1 - unitRoundoff) ^ 2 \<le> p"
      "p \<le> 100 * of_nat c / of_nat n * (1 + unitRoundoff) ^ 2"
    by blast
  have pe: "percentage (chartEntry n e) = Fin p"
    using p(1) by (simp add: chartEntry_def c(2) toNumber_def del: js_mul.simps js_div.simps)
  have ve: "numericOrZero (val (chartEntry n e)) = of_nat c"
    by (simp add: chartEntry_def nv)
  have low: "1 / 2 ^ 32 \<le> 100 * (of_nat c :: rat) / of_nat n"
  proof -
    have npos: "(0 :: rat) < of_nat n" using c(1) cn by simp
    have "n \<le> 2 ^ 32" using n by simp
    then have "(of_nat n :: rat) \<le> of_nat (2 ^ 32)" by (simp only: of_nat_le_iff)
    then have "(of_nat n :: rat) \<le> 2 ^ 32" by simp
    then have "1 / 2 ^ 32 \<le> 1 / (of_nat n :: rat)" using npos by (intro divide_left_mono) simp_all
    also have "\<dots> \<le> 100 * of_nat c / of_nat n"
    proof (rule divide_right_mono)
      have "(1 :: rat) \<le> of_nat c" using c(1) by simp
      then show "(1 :: rat) \<le> 100 * of_nat c" by linarith
      show "(0 :: rat) \<le> of_nat n" by simp
    qed
    finally show ?thesis .
  qed
  show ?thesis using pe p(2,3) low by (simp only: ve) blast
qed

text \<open>
  The percentages of a chart add up to 100 times the share of the records that are in a
  group, up to the rounding of the divisions, the multiplications and the additions.
\<close>

lemma chart_percentage_sum:
  assumes nonempty: "filtered \<noteq> []" and size: "length filtered < 2 ^ 32"
    and keys: "\<forall>d\<in>set filtered. truthy (field d k) \<longrightarrow>
                 toStr h (field d k) \<notin> set objectProtoMembers"
  shows "withinTolerance (percentageTotal (chartData h k filtered))
           (100 * of_nat (length (filter (\<lambda>d. truthy (field d k)) filtered))
              / of_nat (length filtered))
           (of_nat (length (chartData h k filtered) + 2) / 2 ^ 45)"
proof -
  let ?n = "length filtered"
  let ?K = "length (filter (\<lambda>d. truthy (field d k)) filtered)"
  let ?cmp = "\<lambda>a b. js_sub (toNumber (val b)) (toNumber (val a))"
  let ?es = "objectEntries (countBy h k filtered)"
  let ?gs = "arraySort ?cmp (map (chartEntry ?n) ?es)"
  let ?T = "\<lambda>g. 100 * numericOrZero (val g) / of_nat ?n"
  have npos: "(0 :: rat) < of_nat ?n" using nonempty by simp
  note cb = countBy_counts [OF keys size]
  have good: "\<forall>e\<in>set ?es. isCount (snd e)"
    using cb by (simp add: set_objectEntries)
  have tot: "sum_list (map (\<lambda>e. numericOrZero (snd e)) ?es) = of_nat ?K"
    using cb sum_list_mset_cong [OF mset_objectEntries, of "\<lambda>e. numericOrZero (snd e)"] by simp
  have Kn: "(of_nat ?K :: rat) \<le> of_nat ?n" by (simp only: of_nat_le_iff) simp
  have cd: "chartData h k filtered = ?gs"
    using nonempty by (simp add: chartData_def)
  have groups: "\<forall>g\<in>set ?gs. \<exists>p. percentage g = Fin p
                    \<and> ?T g * (1 - unitRoundoff) ^ 2 \<le> p \<and> p \<le> ?T g * (1 + unitRoundoff) ^ 2
                    \<and> 1 / 2 ^ 32 \<le> ?T g"
  proof
    fix g
    assume "g \<in> set ?gs"
    then obtain e where e: "e \<in> set ?es" "g = chartEntry ?n e" by auto
    have "numericOrZero (snd e) \<le> of_nat ?K"
      using count_le_sum [OF good e(1)] tot by simp
    then have "numericOrZero (snd e) \<le> of_nat ?n" using Kn by (rule order_trans)
    from chartEntry_bounds [OF bspec [OF good e(1)] this size]
    show "\<exists>p. percentage g = Fin p
                    \<and> ?T g * (1 - unitRoundoff) ^ 2 \<le> p \<and> p \<le> ?T g * (1 + unitRoundoff) ^ 2
                    \<and> 1 / 2 ^ 32 \<le> ?T g"
      by (simp only: e(2))
  qed
  have sumT: "sum_list (map ?T ?gs) = 100 * of_nat ?K / of_nat ?n"
  proof -
    have "sum_list (map ?T ?gs) = sum_list (map ?T (map (chartEntry ?n) ?es))"
      by (rule sum_list_mset_cong) simp
    also have "\<dots> = sum_list (map (\<lambda>e. 100 * numericOrZero (snd e) / of_nat ?n) ?es)"
      by (simp add: chartEntry_def comp_def)
    also have "\<dots> = 100 * sum_list (map (\<lambda>e. numericOrZero (snd e)) ?es) / of_nat ?n"
      by (rule sum_list_scaled)
    finally show ?thesis by (simp only: tot)
  qed
  have len: "length ?gs = length (countBy h k filtered)"
    by (simp add: length_arraySort length_objectEntries)
  have lenK: "(of_nat (length ?gs) :: rat) \<le> of_nat ?K"
    using length_le_sum [OF good] tot by (simp add: len length_objectEntries)
  have lenn: "length ?gs \<le> ?n"
  proof -
    have "(of_nat (length ?gs) :: rat) \<le> of_nat ?n" using lenK Kn by (rule order_trans)
    then show ?thesis by (simp only: of_nat_le_iff)
  qed
  have B: "0 \<le> 100 * (of_nat ?K :: rat) / of_nat ?n" "100 * (of_nat ?K :: rat) / of_nat ?n \<le> 100"
  proof -
    show "0 \<le> 100 * (of_nat ?K :: rat) / of_nat ?n" by simp
    have "(of_nat ?K :: rat) / of_nat ?n \<le> 1" using Kn npos by (simp add: divide_le_eq)
    then show "100 * (of_nat ?K :: rat) / of_nat ?n \<le> 100" by simp
  qed
  have M: "2 + length ?gs < 2 ^ 40"
  proof -
    have "(2 :: nat) + 2 ^ 32 \<le> 2 ^ 40" by simp
    with lenn size show ?thesis by linarith
  qed
  have start: "0 + sum_list (map ?T ?gs) \<le> 100" using B(2) by (simp only: sumT add_0_left)
  from percentage_sum_bounds [where T = ?T and A = 0 and S = 0 and m = 2, OF groups _ start _ M]
  obtain S where S: "foldl js_add (Fin 0) (map percentage ?gs) = Fin S"
      "(0 + sum_list (map ?T ?gs)) * (1 - unitRoundoff) ^ (2 + length ?gs) \<le> S"
      "S \<le> (0 + sum_list (map ?T ?gs)) * (1 + unitRoundoff) ^ (2 + length ?gs)"
    by auto
  have S': "100 * of_nat ?K / of_nat ?n * (1 - unitRoundoff) ^ (2 + length ?gs) \<le> S"
      "S \<le> 100 * of_nat ?K / of_nat ?n * (1 + unitRoundoff) ^ (2 + length ?gs)"
    using S(2,3) by (simp_all only: sumT add_0_left)
  from bounds_to_tolerance [OF B M S']
  have "\<bar>S - 100 * of_nat ?K / of_nat ?n\<bar> \<le> of_nat (2 + length ?gs) / 2 ^ 45" .
  then have "\<bar>S - 100 * of_nat ?K / of_nat ?n\<bar> \<le> of_nat (length ?gs + 2) / 2 ^ 45"
    by (simp only: add.commute)
  then show ?thesis
    by (simp only: cd percentageTotal_def S(1) withinTolerance_def jsnum.case)
qed

text \<open>
  C5, as the code has it. A record is in a group when its grouping cell is truthy: a cell
  that is absent, \<open>null\<close>, empty, 0, \<open>false\<close> or \<open>NaN\<close> is skipped, but the record still
  counts in the divisor. For a non-empty list (an array has fewer than \<open>2 ^ 32\<close> elements;
  the cells do not name a member of \<open>Object.prototype\<close>) the percentages of the returned
  groups add up, within floating-point tolerance, to 100 times the share of the records
  whose cell is truthy: to 100 when every record has a truthy cell. The tolerance is
  \<open>2 ^ -45\<close> for each group and two more, which is less than a thousandth for any list.
\<close>

theorem chart_percentages:
  assumes nonempty: "filtered \<noteq> []" and size: "length filtered < 2 ^ 32"
    and keys: "\<forall>d\<in>set filtered. truthy (field d k) \<longrightarrow>
                 toStr h (field d k) \<notin> set objectProtoMembers"
  shows "withinTolerance (percentageTotal (chartData h k filtered))
           (100 * of_nat (length (filter (\<lambda>d. truthy (field d k)) filtered))
              / of_nat (length filtered))
           (of_nat (length (chartData h k filtered) + 2) / 2 ^ 45)
       \<and> ((\<forall>d\<in>set filtered. truthy (field d k)) \<longrightarrow>
            withinTolerance (percentageTotal (chartData h k filtered)) 100
              (of_nat (length (chartData h k filtered) + 2) / 2 ^ 45))"
proof (intro conjI impI)
  show total: "withinTolerance (percentageTotal (chartData h k filtered))
           (100 * of_nat (length (filter (\<lambda>d. truthy (field d k)) filtered))
              / of_nat (length filtered))
           (of_nat (length (chartData h k filtered) + 2) / 2 ^ 45)"
    by (rule chart_percentage_sum [OF nonempty size keys])
  assume "\<forall>d\<in>set filtered. truthy (field d k)"
  then have "filter (\<lambda>d. truthy (field d k)) filtered = filtered" by simp
  moreover have "(of_nat (length filtered) :: rat) \<noteq> 0" using nonempty by simp
  ultimately have "100 * of_nat (length (filter (\<lambda>d. truthy (field d k)) filtered))
              / of_nat (length filtered) = (100 :: rat)"
    by simp
  with total show "withinTolerance (percentageTotal (chartData h k filtered)) 100
              (of_nat (length (chartData h k filtered) + 2) / 2 ^ 45)"
    by (simp only:)
qed

text \<open>Rounding a given number: the exponent and the nearest multiple of the spacing.\<close>

lemma roundHalfEven_nearest:
  assumes "of_int z - 1 / 2 < x" and "x < of_int z + 1 / 2"
  shows "roundHalfEven x = z"
proof -
  define f where "f = \<lfloor>x\<rfloor>"
  have fx: "of_int f \<le> x" "x < of_int f + 1" unfolding f_def by linarith+
  have "of_int z - 1 < (of_int f :: rat) + 1 / 2" using assms(1) fx(2) by linarith
  moreover have "(of_int f :: rat) < of_int z + 1 / 2" using assms(2) fx(1) by linarith
  ultimately have "(of_int (2 * z - 2) :: rat) < of_int (2 * f + 1)"
    "(of_int (2 * f) :: rat) < of_int (2 * z + 1)" by simp_all
  then have "2 * z - 2 < 2 * f + 1" "2 * f < 2 * z + 1" by (simp_all only: of_int_less_iff)
  then have "f = z - 1 \<or> f = z" by arith
  then show ?thesis
  proof
    assume f: "f = z - 1"
    then have "1 / 2 < x - of_int f" using assms(1) by simp
    then show ?thesis using f by (simp add: roundHalfEven_def Let_def f_def [symmetric])
  next
    assume f: "f = z"
    then have "x - of_int f < 1 / 2" using assms(2) by simp
    then show ?thesis using f by (simp add: roundHalfEven_def Let_def f_def [symmetric])
  qed
qed

lemma toDouble_nearest:
  assumes q: "0 < q" and e: "2 powi e \<le> q" "q < 2 powi (e + 1)" "- 1022 \<le> e"
    and z: "of_int z - 1 / 2 < q / 2 powi (e - 52)" "q / 2 powi (e - 52) < of_int z + 1 / 2"
    and fin: "of_int z * 2 powi (e - 52) < (2 :: rat) powi 1024"
  shows "toDouble q = Fin (of_int z * 2 powi (e - 52))"
proof -
  have q0: "q \<noteq> 0" and aq: "\<bar>q\<bar> = q" and nneg: "\<not> q < 0" using q by simp_all
  have fl: "floorLog2 q = e" using q e(1,2) by (rule floorLog2_unique)
  have mx: "max e (- 1022) = e" using e(3) by simp
  have r: "roundHalfEven (q / 2 powi (e - 52)) = z" using z by (rule roundHalfEven_nearest)
  have nov: "\<not> 2 powi 1024 \<le> of_int z * (2 :: rat) powi (e - 52)" using fin by simp
  show ?thesis
    unfolding toDouble_abs_form [OF q0] Let_def aq fl mx r using nov nneg by simp
qed

lemma toDouble_third: "toDouble (1 / 3) = Fin (6004799503160661 / 18014398509481984)"
  using toDouble_nearest [of "1 / 3" "- 2" 6004799503160661]
  by (simp add: power_int_minus)

lemma toDouble_two_thirds: "toDouble (2 / 3) = Fin (6004799503160661 / 9007199254740992)"
  using toDouble_nearest [of "2 / 3" "- 1" 6004799503160661]
  by (simp add: power_int_minus)

lemma field_retail: "field retail ''Primary Supply Vertical'' = JStr ''Retail''"
  by (simp add: field_def retail_def)

lemma field_industrial: "field industrial ''Primary Supply Vertical'' = JStr ''Industrial''"
  by (simp add: field_def industrial_def)

lemma field_blank: "field blank ''Primary Supply Vertical'' = JNull"
  by (simp add: field_def blank_def)

lemma Retail_no_member: "''Retail'' \<notin> set objectProtoMembers"
  by (simp add: objectProtoMembers_def)

lemma Industrial_no_member: "''Industrial'' \<notin> set objectProtoMembers"
  by (simp add: objectProtoMembers_def)

text \<open>
  Two records in Retail and one in Industrial. The shares are two thirds and one third;
  in doubles the percentages are 66.66666666666666 and 33.33333333333333, and their sum
  is 99.99999999999999.
\<close>

lemma countBy_example:
  "countBy utcHost ''Primary Supply Vertical'' [retail, industrial, retail]
     = [(''Retail'', JNum (Fin 2)), (''Industrial'', JNum (Fin 1))]"
  by (simp add: countBy_def field_retail field_industrial truthy_def toStr_def bump_def
      Retail_no_member Industrial_no_member js_plus_def js_or_def isString_def toNumber_def)

lemma objectEntries_example:
  "objectEntries [(''Retail'', JNum (Fin 2)), (''Industrial'', JNum (Fin 1))]
     = [(''Retail'', JNum (Fin 2)), (''Industrial'', JNum (Fin 1))]"
  by (simp add: objectEntries_def isArrayIndex_def isDigit_def)

lemma percentage_two_thirds:
  "js_mul (js_div (Fin 2) (Fin 3)) (Fin 100) = Fin (4691249611844266 / 2 ^ 46)"
  using toDouble_nearest [of "6004799503160661 / 9007199254740992 * 100" 6 4691249611844266]
  by (simp add: toDouble_two_thirds power_int_minus)

lemma percentage_third:
  "js_mul (js_div (Fin 1) (Fin 3)) (Fin 100) = Fin (4691249611844266 / 2 ^ 47)"
  using toDouble_nearest [of "6004799503160661 / 18014398509481984 * 100" 5 4691249611844266]
  by (simp add: toDouble_third power_int_minus)

lemma percentage_sum_example:
  "js_add (js_add (Fin 0) (Fin (4691249611844266 / 2 ^ 46))) (Fin (4691249611844266 / 2 ^ 47))
     = Fin (7036874417766399 / 2 ^ 46)"
  using toDouble_exact [of 4691249611844266 "- 46"] toDouble_exact [of 7036874417766399 "- 46"]
  by (simp add: power_int_minus)

lemma chart_example:
  "verticalChartData utcHost [retail, industrial, retail]
     = [\<lparr>name = ''Retail'', val = JNum (Fin 2), percentage = Fin (4691249611844266 / 2 ^ 46)\<rparr>,
        \<lparr>name = ''Industrial'', val = JNum (Fin 1),
         percentage = Fin (4691249611844266 / 2 ^ 47)\<rparr>]"
proof -
  have "verticalChartData utcHost [retail, industrial, retail]
     = [\<lparr>name = ''Retail'', val = JNum (Fin 2),
         percentage = js_mul (js_div (Fin 2) (Fin 3)) (Fin 100)\<rparr>,
        \<lparr>name = ''Industrial'', val = JNum (Fin 1),
         percentage = js_mul (js_div (Fin 1) (Fin 3)) (Fin 100)\<rparr>]"
    by (simp add: verticalChartData_def chartData_def countBy_example objectEntries_example
        chartEntry_def toNumber_def arraySort_def js_sub_def del: js_mul.simps js_div.simps)
  then show ?thesis by (simp only: percentage_two_thirds percentage_third)
qed

lemma percentageTotal_example:
  "percentageTotal (verticalChartData utcHost [retail, industrial, retail])
     = Fin (7036874417766399 / 70368744177664)"
proof -
  have "percentageTotal (verticalChartData utcHost [retail, industrial, retail])
     = js_add (js_add (Fin 0) (Fin (4691249611844266 / 2 ^ 46))) (Fin (4691249611844266 / 2 ^ 47))"
    by (simp add: chart_example percentageTotal_def del: js_add.simps)
  then show ?thesis by (simp only: percentage_sum_example) simp
qed

text \<open>The same list in the theorem: the total is within \<open>4 / 2 ^ 45\<close> of 100.\<close>

theorem chart_percentages_witness:
  "withinTolerance (percentageTotal (verticalChartData utcHost [retail, industrial, retail]))
     100 (4 / 2 ^ 45)"
proof -
  let ?ds = "[retail, industrial, retail]"
  have ne: "?ds \<noteq> []" by simp
  have size: "length ?ds < 2 ^ 32" by simp
  have all: "\<forall>d\<in>set ?ds. truthy (field d ''Primary Supply Vertical'')"
    by (simp add: field_retail field_industrial truthy_def)
  have keys: "\<forall>d\<in>set ?ds. truthy (field d ''Primary Supply Vertical'') \<longrightarrow>
                toStr utcHost (field d ''Primary Supply Vertical'') \<notin> set objectProtoMembers"
    by (simp add: field_retail field_industrial toStr_def Retail_no_member Industrial_no_member)
  have len: "length (chartData utcHost ''Primary Supply Vertical'' ?ds) = 2"
    using chart_example by (simp add: verticalChartData_def)
  have tol: "(of_nat (length (chartData utcHost ''Primary Supply Vertical'' ?ds) + 2) :: rat) / 2 ^ 45
               = 4 / 2 ^ 45"
    by (simp only: len) simp
  have "withinTolerance (percentageTotal (chartData utcHost ''Primary Supply Vertical'' ?ds)) 100
          (of_nat (length (chartData utcHost ''Primary Supply Vertical'' ?ds) + 2) / 2 ^ 45)"
    using chart_percentages [OF ne size keys] all by blast
  then show ?thesis by (simp only: tol verticalChartData_def)
qed

text \<open>
  C5 as the specification words it does not hold: of two records, one in the vertical
  Retail and one with an empty vertical, the chart has the single group Retail with 50
  percent, and the percentages add up to 50, which no tolerance brings to 100.
\<close>

lemma countBy_retail_blank:
  "countBy utcHost ''Primary Supply Vertical'' [retail, blank] = [(''Retail'', JNum (Fin 1))]"
  by (simp add: countBy_def field_retail field_blank truthy_def toStr_def bump_def
      Retail_no_member js_plus_def isString_def toNumber_def)

lemma objectEntries_Retail:
  "objectEntries [(''Retail'', JNum (Fin 1))] = [(''Retail'', JNum (Fin 1))]"
  by (simp add: objectEntries_def isArrayIndex_def isDigit_def)

lemma percentage_half: "js_mul (js_div (Fin 1) (Fin 2)) (Fin 100) = Fin 50"
  using toDouble_exact [of 1 "- 1"] by (simp add: power_int_minus)

theorem chart_percentages_counterexample:
  "verticalChartData utcHost [retail, blank]
     = [\<lparr>name = ''Retail'', val = JNum (Fin 1), percentage = Fin 50\<rparr>]
   \<and> percentageTotal (verticalChartData utcHost [retail, blank]) = Fin 50
   \<and> \<not> withinTolerance (percentageTotal (verticalChartData utcHost [retail, blank])) 100 1"
proof -
  have "verticalChartData utcHost [retail, blank]
     = [\<lparr>name = ''Retail'', val = JNum (Fin 1),
         percentage = js_mul (js_div (Fin 1) (Fin 2)) (Fin 100)\<rparr>]"
    by (simp add: verticalChartData_def chartData_def countBy_retail_blank objectEntries_Retail
        chartEntry_def toNumber_def arraySort_def del: js_mul.simps js_div.simps)
  then have cd: "verticalChartData utcHost [retail, blank]
          = [\<lparr>name = ''Retail'', val = JNum (Fin 1), percentage = Fin 50\<rparr>]"
    by (simp only: percentage_half)
  then show ?thesis by (simp add: percentageTotal_def withinTolerance_def)
qed

subsection \<open>Summary statistics\<close>

lemma sumField_step:
  assumes "numericOrMissing v"
  shows "js_plus h (JNum a) (js_or v (JNum (Fin 0))) = JNum (js_add a (Fin (numericOrZero v)))"
proof (cases "\<exists>q. v = JNum (Fin q)")
  case True
  then obtain q where q: "v = JNum (Fin q)" by blast
  show ?thesis
    by (simp add: q js_or_def truthy_def js_plus_def isString_def toNumber_def numericOrZero_def
        del: js_add.simps)
next
  case False
  then have nt: "\<not> truthy v"
    using assms by (auto simp: numericOrMissing_def split: jsval.splits jsnum.splits)
  have z: "numericOrZero v = 0"
    using False by (auto simp: numericOrZero_def split: jsval.splits jsnum.splits)
  show ?thesis
    by (simp add: nt z js_or_def js_plus_def isString_def toNumber_def del: js_add.simps)
qed

lemma sumField_fold:
  assumes "\<forall>d\<in>set ds. numericOrMissing (field d k)"
  shows "foldl (\<lambda>sum deal. js_plus h sum (js_or (field deal k) (JNum (Fin 0)))) (JNum a) ds
           = JNum (foldl (\<lambda>s q. js_add s (Fin q)) a (map (\<lambda>d. numericOrZero (field d k)) ds))"
  using assms
proof (induction ds arbitrary: a)
  case Nil
  show ?case by simp
next
  case (Cons d ds)
  have step: "js_plus h (JNum a) (js_or (field d k) (JNum (Fin 0)))
                = JNum (js_add a (Fin (numericOrZero (field d k))))"
    by (rule sumField_step) (use Cons.prems in simp)
  have "foldl (\<lambda>sum deal. js_plus h sum (js_or (field deal k) (JNum (Fin 0))))
          (JNum (js_add a (Fin (numericOrZero (field d k))))) ds
        = JNum (foldl (\<lambda>s q. js_add s (Fin q)) (js_add a (Fin (numericOrZero (field d k))))
                  (map (\<lambda>d. numericOrZero (field d k)) ds))"
    by (rule Cons.IH) (use Cons.prems in simp)
  then show ?case by (simp add: step del: js_add.simps)
qed

lemma sumField_numeric:
  "\<forall>d\<in>set ds. numericOrMissing (field d k) \<Longrightarrow>
     sumField h k ds = JNum (addFromLeft (map (\<lambda>d. numericOrZero (field d k)) ds))"
  unfolding sumField_def addFromLeft_def by (rule sumField_fold)

text \<open>Whole numbers add without rounding while the running total stays within \<open>2 ^ 53\<close>.\<close>

lemma add_whole_fold:
  assumes "\<forall>q\<in>set qs. q = of_int \<lfloor>q\<rfloor>" and "a = of_int \<lfloor>a\<rfloor>"
    and "\<bar>a\<bar> + sum_list (map abs qs) \<le> 2 ^ 53"
  shows "foldl (\<lambda>s q. js_add s (Fin q)) (Fin a) qs = Fin (a + sum_list qs)"
  using assms
proof (induction qs arbitrary: a)
  case Nil
  show ?case by simp
next
  case (Cons q qs)
  have q: "q = of_int \<lfloor>q\<rfloor>" using Cons.prems(1) by simp
  have nn: "0 \<le> sum_list (map abs qs)" by (intro sum_list_nonneg) auto
  have whole: "a + q = of_int (\<lfloor>a\<rfloor> + \<lfloor>q\<rfloor>)"
    using Cons.prems(2) q by simp
  have "\<bar>a + q\<bar> \<le> \<bar>a\<bar> + \<bar>q\<bar>" by (rule abs_triangle_ineq)
  then have bound: "\<bar>a + q\<bar> + sum_list (map abs qs) \<le> 2 ^ 53"
    using Cons.prems(3) by simp
  then have "\<bar>a + q\<bar> \<le> 2 ^ 53" using nn by linarith
  then have "\<bar>(of_int (\<lfloor>a\<rfloor> + \<lfloor>q\<rfloor>) :: rat)\<bar> \<le> of_int (2 ^ 53)"
    by (simp only: whole [symmetric]) simp
  then have "\<bar>\<lfloor>a\<rfloor> + \<lfloor>q\<rfloor>\<bar> \<le> 2 ^ 53"
    by (simp only: of_int_abs [symmetric] of_int_le_iff)
  then have "toDouble (of_int (\<lfloor>a\<rfloor> + \<lfloor>q\<rfloor>)) = Fin (of_int (\<lfloor>a\<rfloor> + \<lfloor>q\<rfloor>))"
    by (rule toDouble_int)
  then have step: "js_add (Fin a) (Fin q) = Fin (a + q)"
    by (simp only: js_add.simps whole)
  have fl: "\<lfloor>a + q\<rfloor> = \<lfloor>a\<rfloor> + \<lfloor>q\<rfloor>"
    using arg_cong [OF whole, of floor] by (simp only: floor_of_int)
  have whole': "a + q = of_int \<lfloor>a + q\<rfloor>"
    unfolding fl by (rule whole)
  have "foldl (\<lambda>s q. js_add s (Fin q)) (Fin (a + q)) qs = Fin (a + q + sum_list qs)"
    by (rule Cons.IH) (use Cons.prems(1) whole' bound in simp_all)
  then show ?case by (simp add: step add.assoc del: js_add.simps)
qed

lemma addFromLeft_whole:
  assumes "\<forall>q\<in>set qs. q = of_int \<lfloor>q\<rfloor>" and "sum_list (map abs qs) \<le> 2 ^ 53"
  shows "addFromLeft qs = Fin (sum_list qs)"
  unfolding addFromLeft_def using add_whole_fold [OF assms(1), of 0] assms(2) by simp

text \<open>
  C8, as the code has it. For no filtered records the summary is the \<open>null\<close> sentinel,
  not an object of zeros. For every non-empty list it is an object that counts the records.
  Where the Revenue and EBITDA cells are numbers or missing (falsy), its totals are the
  cells added from the left, a missing cell counted as 0 and each addition rounded to a
  double, and its averages are those totals divided by the number of records, rounded
  once more. For amounts that are whole numbers whose absolute values add up to at most
  \<open>2 ^ 53\<close>, no addition rounds and the total is the sum.
\<close>

theorem summary_stats:
  "summaryStats h [] = None
   \<and> (filtered \<noteq> [] \<longrightarrow> (\<exists>s. summaryStats h filtered = Some s \<and> totalDeals s = length filtered))
   \<and> (filtered \<noteq> []
        \<and> (\<forall>d\<in>set filtered. numericOrMissing (field d ''Revenue'')
              \<and> numericOrMissing (field d ''EBITDA'')) \<longrightarrow>
       summaryStats h filtered = Some
         \<lparr>totalDeals = length filtered,
          totalRevenue =
            JNum (addFromLeft (map (\<lambda>d. numericOrZero (field d ''Revenue'')) filtered)),
          avgRevenue =
            js_div (addFromLeft (map (\<lambda>d. numericOrZero (field d ''Revenue'')) filtered))
              (Fin (of_nat (length filtered))),
          totalEBITDA =
            JNum (addFromLeft (map (\<lambda>d. numericOrZero (field d ''EBITDA'')) filtered)),
          avgEBITDA =
            js_div (addFromLeft (map (\<lambda>d. numericOrZero (field d ''EBITDA'')) filtered))
              (Fin (of_nat (length filtered)))\<rparr>)
   \<and> ((\<forall>q\<in>set qs. q = of_int \<lfloor>q\<rfloor>) \<and> sum_list (map abs qs) \<le> 2 ^ 53 \<longrightarrow>
        addFromLeft qs = Fin (sum_list qs))"
proof (intro conjI impI)
  show "summaryStats h [] = None" by (simp add: summaryStats_def)
next
  assume "filtered \<noteq> []"
  then show "\<exists>s. summaryStats h filtered = Some s \<and> totalDeals s = length filtered"
    by (simp add: summaryStats_def)
next
  assume a: "filtered \<noteq> [] \<and> (\<forall>d\<in>set filtered. numericOrMissing (field d ''Revenue'')
              \<and> numericOrMissing (field d ''EBITDA''))"
  then have r: "sumField h ''Revenue'' filtered
                  = JNum (addFromLeft (map (\<lambda>d. numericOrZero (field d ''Revenue'')) filtered))"
    by (intro sumField_numeric) simp
  from a have e: "sumField h ''EBITDA'' filtered
                  = JNum (addFromLeft (map (\<lambda>d. numericOrZero (field d ''EBITDA'')) filtered))"
    by (intro sumField_numeric) simp
  show "summaryStats h filtered = Some
         \<lparr>totalDeals = length filtered,
          totalRevenue =
            JNum (addFromLeft (map (\<lambda>d. numericOrZero (field d ''Revenue'')) filtered)),
          avgRevenue =
            js_div (addFromLeft (map (\<lambda>d. numericOrZero (field d ''Revenue'')) filtered))
              (Fin (of_nat (length filtered))),
          totalEBITDA =
            JNum (addFromLeft (map (\<lambda>d. numericOrZero (field d ''EBITDA'')) filtered)),
          avgEBITDA =
            js_div (addFromLeft (map (\<lambda>d. numericOrZero (field d ''EBITDA'')) filtered))
              (Fin (of_nat (length filtered)))\<rparr>"
    using a by (simp add: summaryStats_def r e toNumber_def)
next
  assume "(\<forall>q\<in>set qs. q = of_int \<lfloor>q\<rfloor>) \<and> sum_list (map abs qs) \<le> 2 ^ 53"
  then show "addFromLeft qs = Fin (sum_list qs)"
    by (intro addFromLeft_whole) simp_all
qed

text \<open>
  Two records, one with a revenue of 3,000,000 and no EBITDA, one with an EBITDA of 500,000
  and no revenue: the totals are the two amounts and the averages are their halves.
\<close>

theorem summary_stats_witness:
  "summaryStats utcHost [dealB, [(''EBITDA'', JNum (Fin 500000))]] = Some
     \<lparr>totalDeals = 2, totalRevenue = JNum (Fin 3000000), avgRevenue = Fin 1500000,
      totalEBITDA = JNum (Fin 500000), avgEBITDA = Fin 250000\<rparr>"
proof -
  let ?e = "[(''EBITDA'', JNum (Fin 500000))]"
  have f: "field dealB ''Revenue'' = JNum (Fin 3000000)" "field dealB ''EBITDA'' = JUndefined"
    "field ?e ''Revenue'' = JUndefined" "field ?e ''EBITDA'' = JNum (Fin 500000)"
    by (simp_all add: field_def dealB_def)
  have hyp: "[dealB, ?e] \<noteq> []
        \<and> (\<forall>d\<in>set [dealB, ?e]. numericOrMissing (field d ''Revenue'')
              \<and> numericOrMissing (field d ''EBITDA''))"
    by (simp add: f numericOrMissing_def truthy_def)
  have cells: "map (\<lambda>d. numericOrZero (field d ''Revenue'')) [dealB, ?e] = [3000000, 0]"
    "map (\<lambda>d. numericOrZero (field d ''EBITDA'')) [dealB, ?e] = [0, 500000]"
    by (simp_all add: f numericOrZero_def)
  have whole: "(\<forall>q\<in>set [3000000, 0 :: rat]. q = of_int \<lfloor>q\<rfloor>)
                 \<and> sum_list (map abs [3000000, 0 :: rat]) \<le> 2 ^ 53"
    "(\<forall>q\<in>set [0, 500000 :: rat]. q = of_int \<lfloor>q\<rfloor>)
                 \<and> sum_list (map abs [0, 500000 :: rat]) \<le> 2 ^ 53"
    by simp_all
  have r: "addFromLeft [3000000, 0] = Fin 3000000"
    using summary_stats [of utcHost "[dealB, ?e]" "[3000000, 0]"] whole(1) by simp
  have e: "addFromLeft [0, 500000] = Fin 500000"
    using summary_stats [of utcHost "[dealB, ?e]" "[0, 500000]"] whole(2) by simp
  have avg: "js_div (Fin 3000000) (Fin (of_nat (length [dealB, ?e]))) = Fin 1500000"
    "js_div (Fin 500000) (Fin (of_nat (length [dealB, ?e]))) = Fin 250000"
    by simp_all
  have "summaryStats utcHost [dealB, ?e] = Some
         \<lparr>totalDeals = length [dealB, ?e],
          totalRevenue =
            JNum (addFromLeft (map (\<lambda>d. numericOrZero (field d ''Revenue'')) [dealB, ?e])),
          avgRevenue =
            js_div (addFromLeft (map (\<lambda>d. numericOrZero (field d ''Revenue'')) [dealB, ?e]))
              (Fin (of_nat (length [dealB, ?e]))),
          totalEBITDA =
            JNum (addFromLeft (map (\<lambda>d. numericOrZero (field d ''EBITDA'')) [dealB, ?e])),
          avgEBITDA =
            js_div (addFromLeft (map (\<lambda>d. numericOrZero (field d ''EBITDA'')) [dealB, ?e]))
              (Fin (of_nat (length [dealB, ?e])))\<rparr>"
    using summary_stats [of utcHost "[dealB, ?e]" "[]"] hyp by blast
  then show ?thesis by (simp only: cells r e avg) simp
qed

text \<open>
  The averages are doubles: the average of a revenue of 1 and two records without revenue
  is 0.3333333333333333, the double next to a third.
\<close>

lemma summary_third_example:
  "summaryStats utcHost [[(''Revenue'', JNum (Fin 1))], [], []] = Some
     \<lparr>totalDeals = 3, totalRevenue = JNum (Fin 1),
      avgRevenue = Fin (6004799503160661 / 18014398509481984),
      totalEBITDA = JNum (Fin 0), avgEBITDA = Fin 0\<rparr>"
  by (simp add: summaryStats_def sumField_def field_def js_or_def truthy_def js_plus_def
      isString_def toNumber_def toDouble_third)

lemma toStr_0: "toStr h (JNum (Fin 0)) = ''0''"
  by (simp add: toStr_eval)

lemma stringToNumber_0NA: "stringToNumber ''0N/A'' = NaN"
  by (simp add: stringToNumber_eval)

text \<open>
  C8 as the specification words it does not hold for every non-empty list: a record whose
  Revenue is the text \<open>N/A\<close> passes the filter, and in the summary the text is
  concatenated to the running total, which becomes the string \<open>0N/A\<close>; the average is
  \<open>NaN\<close>.
\<close>

theorem summary_text_cell_counterexample:
  "filteredDeals utcHost (Some unrestricted) [Some [(''Revenue'', JStr ''N/A'')]]
     = Inr [Some [(''Revenue'', JStr ''N/A'')]]
   \<and> summaryStats utcHost [[(''Revenue'', JStr ''N/A'')]] = Some
       \<lparr>totalDeals = 1, totalRevenue = JStr ''0N/A'', avgRevenue = NaN,
        totalEBITDA = JNum (Fin 0), avgEBITDA = Fin 0\<rparr>"
proof -
  let ?d = "[(''Revenue'', JStr ''N/A'')]"
  have f: "field ?d ''Revenue'' = JStr ''N/A''" "field ?d ''EBITDA'' = JUndefined"
    by (simp_all add: field_def)
  have r: "sumField utcHost ''Revenue'' [?d] = JStr ''0N/A''"
    by (simp add: sumField_def f js_or_def truthy_def js_plus_def isString_def toStr_0)
       (simp add: toStr_def)
  have e: "sumField utcHost ''EBITDA'' [?d] = JNum (Fin 0)"
    by (simp add: sumField_def f js_or_def truthy_def js_plus_def isString_def toNumber_def)
  have "summaryStats utcHost [?d] = Some
       \<lparr>totalDeals = 1, totalRevenue = JStr ''0N/A'', avgRevenue = NaN,
        totalEBITDA = JNum (Fin 0), avgEBITDA = Fin 0\<rparr>"
    by (simp add: summaryStats_def r e toNumber_def stringToNumber_0NA)
  moreover have "filteredDeals utcHost (Some unrestricted) [Some ?d] = Inr [Some ?d]"
    by (simp add: filteredDeals_def unrestricted_passes)
  ultimately show ?thesis by blast
qed

end
